theory Spec2Isabelle
  imports Complex_Main "HOL-Library.Multiset"
begin

section \<open>The schema\<close>

text \<open>
  The five tables of the edge-device schema. A row is a record, a table is the list of
  its rows in storage order. Ids are \<open>VARCHAR(26)\<close> primary keys: strings, taken as never
  \<open>NULL\<close>, and a row is identified by its id. Every other nullable column is an \<open>option\<close>.
  \<open>deleted_at\<close> is the soft-delete column: \<open>None\<close> (SQL \<open>NULL\<close>) means the row is alive.
  The central-server schema has the same tables without \<open>deleted_at\<close>.
\<close>

type_synonym ident = string

type_synonym timestamp = nat

record node =
  n_id :: ident
  n_deleted_at :: "timestamp option"
  n_type :: string
  n_parent_id :: "ident option"
  n_name :: string
  n_description :: "string option"

record port =
  p_id :: ident
  p_deleted_at :: "timestamp option"
  p_node_id :: "ident option"
  p_port_type :: string
  p_name :: string
  p_description :: "string option"

record port_value =
  v_id :: ident
  v_deleted_at :: "timestamp option"
  v_port_id :: "ident option"
  v_timestamp :: timestamp
  v_value_numeric :: "real option"
  v_value_text :: "string option"
  v_value_boolean :: "bool option"
  v_value_json :: "string option"
  v_is_synced :: "bool option"
  v_last_synced :: "timestamp option"

record edge =
  e_id :: ident
  e_deleted_at :: "timestamp option"
  e_from_port_id :: "ident option"
  e_to_port_id :: "ident option"
  e_description :: "string option"

record tag =
  t_node_id :: ident
  t_deleted_at :: "timestamp option"
  t_tag_key :: string
  t_tag_value :: string

record store =
  nodes :: "node list"
  ports :: "port list"
  port_values :: "port_value list"
  edges :: "edge list"
  tags :: "tag list"

section \<open>The hierarchy query\<close>

text \<open>
  The recursive common table expression \<open>nodes_hierarchy (id, name, type, description,
  level)\<close>. Its non-recursive term selects the root row at level 0. Its recursive term
  joins the working table with \<open>nodes\<close> on \<open>nodes.parent_id = nodes_hierarchy.id\<close> and
  keeps the joined rows whose working-table level passes the \<open>WHERE\<close> test. The two
  READMEs write that test differently: the edge-device one has \<open>WHERE level <= 3\<close>, the
  central-server one (and \<open>test_queries.sql\<close>) has \<open>WHERE nh.level < 3\<close>. The literal is
  the depth argument \<open>D\<close> here.

  The query has no \<open>ORDER BY\<close>, so the order of its rows is the engine's choice. Here the
  children of a row come in the order in which the table lists them; an engine that reads
  them through \<open>idx_nodes_parent_id_deleted (parent_id, deleted_at)\<close> lists the alive
  children of a parent before the soft-deleted ones. Such a reading is the query on a
  reordered table, so a statement that must not depend on the order is made about the
  multiset of the rows returned.
\<close>

record hrow =
  h_id :: ident
  h_name :: string
  h_type :: string
  h_description :: "string option"
  h_level :: nat

datatype readme = Edge_Device | Central_Server

definition level_test :: "readme \<Rightarrow> nat \<Rightarrow> nat \<Rightarrow> bool" where
  "level_test q D l = (case q of Edge_Device \<Rightarrow> l \<le> D | Central_Server \<Rightarrow> l < D)"

definition base_term :: "ident \<Rightarrow> node list \<Rightarrow> hrow list" where
  "base_term rt tbl =
     map (\<lambda>n. \<lparr>h_id = n_id n, h_name = n_name n, h_type = n_type n,
               h_description = n_description n, h_level = 0\<rparr>)
         (filter (\<lambda>n. n_id n = rt) tbl)"

definition join_row :: "readme \<Rightarrow> nat \<Rightarrow> node list \<Rightarrow> hrow \<Rightarrow> hrow list" where
  "join_row q D tbl nh =
     (if level_test q D (h_level nh)
      then map (\<lambda>n. \<lparr>h_id = n_id n, h_name = n_name n, h_type = n_type n,
                     h_description = n_description n, h_level = h_level nh + 1\<rparr>)
               (filter (\<lambda>n. n_parent_id n = Some (h_id nh)) tbl)
      else [])"

definition recursive_term :: "readme \<Rightarrow> nat \<Rightarrow> node list \<Rightarrow> hrow list \<Rightarrow> hrow list" where
  "recursive_term q D tbl wt = concat (map (join_row q D tbl) wt)"

text \<open>
  \<open>UNION ALL\<close> evaluation: the working table is emitted and replaced by the recursive
  term applied to it, until it is empty. The loop ends on every table, also one whose
  parent chains have a cycle: the lowest level in the working table grows with every
  round and the level test bounds it.
\<close>

definition lowest :: "hrow list \<Rightarrow> nat" where
  "lowest wt = Min (h_level ` set wt)"

function iterate_cte :: "readme \<Rightarrow> nat \<Rightarrow> node list \<Rightarrow> hrow list \<Rightarrow> hrow list" where
  "iterate_cte q D tbl wt =
     (if wt = [] then [] else wt @ iterate_cte q D tbl (recursive_term q D tbl wt))"
  by pat_completeness auto

termination iterate_cte
proof (relation "measure (\<lambda>(q, D, tbl, wt). if wt = [] then 0 else Suc (Suc (Suc D) - lowest wt))")
  show "wf (measure (\<lambda>(q, D, tbl, wt). if wt = [] then 0 else Suc (Suc (Suc D) - lowest wt)))"
    by simp
next
  fix q :: readme and D :: nat and tbl :: "node list" and wt :: "hrow list"
  assume ne: "wt \<noteq> []"
  define wt' where "wt' = recursive_term q D tbl wt"
  have "lowest wt < lowest wt' \<and> lowest wt' \<le> Suc D" if "wt' \<noteq> []"
  proof -
    have "Min (h_level ` set wt') \<in> h_level ` set wt'"
      using that by (intro Min_in) auto
    then obtain r where r: "r \<in> set wt'" "h_level r = lowest wt'"
      by (auto simp: lowest_def)
    from r(1) obtain nh where nh: "nh \<in> set wt" "level_test q D (h_level nh)"
      "h_level r = Suc (h_level nh)"
      by (auto simp: wt'_def recursive_term_def join_row_def split: if_splits)
    have "lowest wt \<le> h_level nh"
      using nh(1) by (simp add: lowest_def)
    moreover have "h_level nh \<le> D"
      using nh(2) by (cases q) (simp_all add: level_test_def)
    ultimately show ?thesis using r(2) nh(3) by simp
  qed
  then show "((q, D, tbl, recursive_term q D tbl wt), (q, D, tbl, wt))
      \<in> measure (\<lambda>(q, D, tbl, wt). if wt = [] then 0 else Suc (Suc (Suc D) - lowest wt))"
    using ne by (auto simp: wt'_def)
qed

declare iterate_cte.simps [simp del]

definition nodes_hierarchy :: "readme \<Rightarrow> nat \<Rightarrow> ident \<Rightarrow> node list \<Rightarrow> hrow list" where
  "nodes_hierarchy q D rt tbl = iterate_cte q D tbl (base_term rt tbl)"

section \<open>The tag search\<close>

text \<open>
  The multiple-tag search of the central-server README: the \<open>WHERE\<close> clause is the
  disjunction of the required \<open>(tag_key, tag_value)\<close> pairs, the matching rows are grouped
  by \<open>node_id\<close>, and \<open>HAVING COUNT(DISTINCT tag_key) = n\<close> keeps the groups with \<open>n\<close>
  distinct keys, \<open>n\<close> being the number of pairs written into the query.
\<close>

definition matching_tags :: "(string \<times> string) list \<Rightarrow> tag list \<Rightarrow> tag list" where
  "matching_tags preds tbl =
     filter (\<lambda>t. list_ex (\<lambda>(k, x). t_tag_key t = k \<and> t_tag_value t = x) preds) tbl"

definition multi_tag_search :: "(string \<times> string) list \<Rightarrow> tag list \<Rightarrow> ident list" where
  "multi_tag_search preds tbl =
     (let m = matching_tags preds tbl
      in filter (\<lambda>g. length (remdups (map t_tag_key (filter (\<lambda>t. t_node_id t = g) m)))
                       = length preds)
                (remdups (map t_node_id m)))"

text \<open>
  The single-tag filter of both READMEs: \<open>SELECT * FROM nodes WHERE id IN (SELECT node_id
  FROM tags WHERE tag_key = ? AND tag_value = ?)\<close>.
\<close>

definition tag_filter :: "string \<Rightarrow> string \<Rightarrow> store \<Rightarrow> node list" where
  "tag_filter k x st =
     filter (\<lambda>n. n_id n \<in> set (map t_node_id
                                 (filter (\<lambda>t. t_tag_key t = k \<and> t_tag_value t = x) (tags st))))
            (nodes st)"

section \<open>Inserting a node\<close>

text \<open>
  The loader's \<open>INSERT INTO nodes (id, type, parent_id, name, description)\<close> under the
  constraints of the schema: \<open>id\<close> is the primary key, and with foreign keys enabled
  \<open>parent_id\<close> is \<open>NULL\<close> or the id of a row of \<open>nodes\<close> at the end of the statement, the
  inserted row included.
\<close>

datatype sql_error = Primary_Key_Violation | Foreign_Key_Violation

definition insert_node ::
  "ident \<Rightarrow> string \<Rightarrow> ident option \<Rightarrow> string \<Rightarrow> string option \<Rightarrow> store \<Rightarrow> sql_error + store" where
  "insert_node i ty par nm ds st =
     (if i \<in> set (map n_id (nodes st)) then Inl Primary_Key_Violation
      else case par of
        None \<Rightarrow> Inr (st\<lparr>nodes := nodes st @ [\<lparr>n_id = i, n_deleted_at = None, n_type = ty,
                       n_parent_id = None, n_name = nm, n_description = ds\<rparr>]\<rparr>)
      | Some p \<Rightarrow>
          if p \<in> set (map n_id (nodes st)) \<or> p = i
          then Inr (st\<lparr>nodes := nodes st @ [\<lparr>n_id = i, n_deleted_at = None, n_type = ty,
                       n_parent_id = Some p, n_name = nm, n_description = ds\<rparr>]\<rparr>)
          else Inl Foreign_Key_Violation)"

section \<open>Soft delete and restore triggers\<close>

text \<open>
  \<open>UPDATE tbl SET assign WHERE cond\<close> on a table without triggers rewrites the matching
  rows in place.
\<close>

definition sql_update :: "('r \<Rightarrow> bool) \<Rightarrow> ('r \<Rightarrow> 'r) \<Rightarrow> 'r list \<Rightarrow> 'r list" where
  "sql_update cond assign tbl = map (\<lambda>r. if cond r then assign r else r) tbl"

text \<open>
  The four triggers \<open>AFTER UPDATE OF deleted_at ON ports FOR EACH ROW\<close>, each a function
  of the \<open>OLD\<close> and the \<open>NEW\<close> row. Port values and edges have no triggers of their own.
\<close>

definition cascade_soft_delete_port_values_on_ports_delete :: "port \<Rightarrow> port \<Rightarrow> store \<Rightarrow> store" where
  "cascade_soft_delete_port_values_on_ports_delete old new st =
     (if p_deleted_at new \<noteq> None \<and> p_deleted_at old = None
      then st\<lparr>port_values :=
             sql_update (\<lambda>x. v_port_id x = Some (p_id new) \<and> v_deleted_at x = None)
                        (\<lambda>x. x\<lparr>v_deleted_at := p_deleted_at new\<rparr>) (port_values st)\<rparr>
      else st)"

definition cascade_soft_delete_edges_on_ports_delete :: "port \<Rightarrow> port \<Rightarrow> store \<Rightarrow> store" where
  "cascade_soft_delete_edges_on_ports_delete old new st =
     (if p_deleted_at new \<noteq> None \<and> p_deleted_at old = None
      then st\<lparr>edges :=
             sql_update (\<lambda>e. (e_from_port_id e = Some (p_id new) \<or> e_to_port_id e = Some (p_id new))
                              \<and> e_deleted_at e = None)
                        (\<lambda>e. e\<lparr>e_deleted_at := p_deleted_at new\<rparr>) (edges st)\<rparr>
      else st)"

definition cascade_restore_port_values_on_ports_restore :: "port \<Rightarrow> port \<Rightarrow> store \<Rightarrow> store" where
  "cascade_restore_port_values_on_ports_restore old new st =
     (if p_deleted_at new = None \<and> p_deleted_at old \<noteq> None
      then st\<lparr>port_values :=
             sql_update (\<lambda>x. v_port_id x = Some (p_id new) \<and> v_deleted_at x \<noteq> None)
                        (\<lambda>x. x\<lparr>v_deleted_at := None\<rparr>) (port_values st)\<rparr>
      else st)"

definition cascade_restore_edges_on_ports_restore :: "port \<Rightarrow> port \<Rightarrow> store \<Rightarrow> store" where
  "cascade_restore_edges_on_ports_restore old new st =
     (if p_deleted_at new = None \<and> p_deleted_at old \<noteq> None
      then st\<lparr>edges :=
             sql_update (\<lambda>e. (e_from_port_id e = Some (p_id new) \<or> e_to_port_id e = Some (p_id new))
                              \<and> e_deleted_at e \<noteq> None)
                        (\<lambda>e. e\<lparr>e_deleted_at := None\<rparr>) (edges st)\<rparr>
      else st)"

definition ports_row_triggers :: "port \<Rightarrow> port \<Rightarrow> store \<Rightarrow> store" where
  "ports_row_triggers old new st =
     cascade_restore_edges_on_ports_restore old new
       (cascade_restore_port_values_on_ports_restore old new
         (cascade_soft_delete_edges_on_ports_delete old new
           (cascade_soft_delete_port_values_on_ports_delete old new st)))"

text \<open>
  \<open>UPDATE ports SET deleted_at = v WHERE cond\<close>: the matching rows are rewritten and the
  row triggers run once for each of them, in storage order. The port triggers neither
  read nor write \<open>ports\<close>, so it makes no difference that the rows are all rewritten
  before the first trigger runs.
\<close>

definition update_ports :: "(port \<Rightarrow> bool) \<Rightarrow> timestamp option \<Rightarrow> store \<Rightarrow> store" where
  "update_ports cond v st =
     fold (\<lambda>old. ports_row_triggers old (old\<lparr>p_deleted_at := v\<rparr>))
          (filter cond (ports st))
          (st\<lparr>ports := sql_update cond (\<lambda>p. p\<lparr>p_deleted_at := v\<rparr>) (ports st)\<rparr>)"

text \<open>
  The triggers \<open>AFTER UPDATE OF deleted_at ON nodes FOR EACH ROW\<close> on ports and tags.
\<close>

definition cascade_soft_delete_ports_on_nodes_delete :: "node \<Rightarrow> node \<Rightarrow> store \<Rightarrow> store" where
  "cascade_soft_delete_ports_on_nodes_delete old new st =
     (if n_deleted_at new \<noteq> None \<and> n_deleted_at old = None
      then update_ports (\<lambda>p. p_node_id p = Some (n_id new) \<and> p_deleted_at p = None)
                        (n_deleted_at new) st
      else st)"

definition cascade_soft_delete_tags_on_nodes_delete :: "node \<Rightarrow> node \<Rightarrow> store \<Rightarrow> store" where
  "cascade_soft_delete_tags_on_nodes_delete old new st =
     (if n_deleted_at new \<noteq> None \<and> n_deleted_at old = None
      then st\<lparr>tags :=
             sql_update (\<lambda>t. t_node_id t = n_id new \<and> t_deleted_at t = None)
                        (\<lambda>t. t\<lparr>t_deleted_at := n_deleted_at new\<rparr>) (tags st)\<rparr>
      else st)"

definition cascade_restore_ports_on_nodes_restore :: "node \<Rightarrow> node \<Rightarrow> store \<Rightarrow> store" where
  "cascade_restore_ports_on_nodes_restore old new st =
     (if n_deleted_at new = None \<and> n_deleted_at old \<noteq> None
      then update_ports (\<lambda>p. p_node_id p = Some (n_id new) \<and> p_deleted_at p \<noteq> None) None st
      else st)"

definition cascade_restore_tags_on_nodes_restore :: "node \<Rightarrow> node \<Rightarrow> store \<Rightarrow> store" where
  "cascade_restore_tags_on_nodes_restore old new st =
     (if n_deleted_at new = None \<and> n_deleted_at old \<noteq> None
      then st\<lparr>tags :=
             sql_update (\<lambda>t. t_node_id t = n_id new \<and> t_deleted_at t \<noteq> None)
                        (\<lambda>t. t\<lparr>t_deleted_at := None\<rparr>) (tags st)\<rparr>
      else st)"

definition nodes_row_triggers :: "node \<Rightarrow> node \<Rightarrow> store \<Rightarrow> store" where
  "nodes_row_triggers old new st =
     cascade_restore_tags_on_nodes_restore old new
       (cascade_restore_ports_on_nodes_restore old new
         (cascade_soft_delete_tags_on_nodes_delete old new
           (cascade_soft_delete_ports_on_nodes_delete old new st)))"

text \<open>
  The two triggers on nodes that update \<open>nodes\<close> again are the recursion
  (\<open>PRAGMA recursive_triggers = ON\<close>). Each is modelled by the rows its \<open>UPDATE\<close> selects,
  the children of \<open>NEW.id\<close> in the state to be changed; the value they are given is
  \<open>NEW.deleted_at\<close> (for a restore \<open>NULL\<close>, which is \<open>NEW.deleted_at\<close> when the trigger
  fires).
\<close>

definition cascade_soft_delete_nodes_on_nodes_delete :: "node \<Rightarrow> node \<Rightarrow> store \<Rightarrow> ident list" where
  "cascade_soft_delete_nodes_on_nodes_delete old new st =
     (if n_deleted_at new \<noteq> None \<and> n_deleted_at old = None
      then map n_id (filter (\<lambda>k. n_parent_id k = Some (n_id new) \<and> n_deleted_at k = None) (nodes st))
      else [])"

definition cascade_restore_nodes_on_nodes_restore :: "node \<Rightarrow> node \<Rightarrow> store \<Rightarrow> ident list" where
  "cascade_restore_nodes_on_nodes_restore old new st =
     (if n_deleted_at new = None \<and> n_deleted_at old \<noteq> None
      then map n_id (filter (\<lambda>k. n_parent_id k = Some (n_id new) \<and> n_deleted_at k \<noteq> None) (nodes st))
      else [])"

definition child_rows :: "node \<Rightarrow> node \<Rightarrow> store \<Rightarrow> ident list" where
  "child_rows old new st =
     cascade_soft_delete_nodes_on_nodes_delete old new st
     @ cascade_restore_nodes_on_nodes_restore old new st"

text \<open>
  The execution of an \<open>UPDATE\<close> of \<open>deleted_at\<close> on nodes, with all the triggers it
  fires. \<open>v\<close> is the value written; it is the same down the whole cascade. \<open>pending\<close> is
  the stack of selected rows not yet written: first the rows of the innermost running
  \<open>UPDATE\<close>, then those of the statements that wait for it. One step writes the first
  pending row, runs the port and tag triggers of that row to their end, and puts the
  rows selected by the recursive trigger in front of the stack, so they and everything
  below them are finished before the next sibling is written. (The engine does not fix
  the order of several triggers on one event; here the recursive one runs last.) A
  pending row is written without looking at its state again; the \<open>WHEN\<close> clauses are
  tested on the state found when it is written.

  \<open>differs v d\<close> joins the \<open>WHEN\<close> clauses of the two families: the row had state \<open>d\<close>,
  is given \<open>v\<close>, and one of them is \<open>NULL\<close> and the other is not. The cascade ends on
  every store, also one whose parent chains have a cycle: every step that fires a
  trigger leaves one node row less in a state that differs from \<open>v\<close>. The engine's
  bound on the depth of nested triggers is not modelled: the statements below are about
  hierarchies the engine runs to the end, such as the three levels the loader builds.
\<close>

definition differs :: "timestamp option \<Rightarrow> timestamp option \<Rightarrow> bool" where
  "differs v d \<longleftrightarrow> (v \<noteq> None \<and> d = None) \<or> (v = None \<and> d \<noteq> None)"

definition stale :: "timestamp option \<Rightarrow> store \<Rightarrow> nat" where
  "stale v st = length (filter (\<lambda>r. differs v (n_deleted_at r)) (nodes st))"

function cascade :: "timestamp option \<Rightarrow> ident list \<Rightarrow> store \<Rightarrow> store" where
  "cascade v [] st = st"
| "cascade v (c # pending) st =
     (let olds = filter (\<lambda>r. n_id r = c) (nodes st);
          st1 = st\<lparr>nodes := sql_update (\<lambda>r. n_id r = c) (\<lambda>r. r\<lparr>n_deleted_at := v\<rparr>) (nodes st)\<rparr>;
          kids = concat (map (\<lambda>old. child_rows old (old\<lparr>n_deleted_at := v\<rparr>) st1) olds);
          st2 = fold (\<lambda>old. nodes_row_triggers old (old\<lparr>n_deleted_at := v\<rparr>)) olds st1
      in cascade v (kids @ pending) st2)"
  by pat_completeness auto

termination cascade
proof (relation "inv_image (less_than <*lex*> less_than)
                   (\<lambda>(v, pending, st). (stale v st, length pending))")
  show "wf (inv_image (less_than <*lex*> less_than)
              (\<lambda>(v, pending, st). (stale v st, length pending)))"
    by (intro wf_inv_image wf_lex_prod wf_less_than)
next
  fix v :: "timestamp option" and c :: ident and pending :: "ident list" and st :: store
    and olds st1 kids st2
  assume olds: "olds = filter (\<lambda>r. n_id r = c) (nodes st)"
    and st1: "st1 = st\<lparr>nodes := sql_update (\<lambda>r. n_id r = c) (\<lambda>r. r\<lparr>n_deleted_at := v\<rparr>) (nodes st)\<rparr>"
    and kids: "kids = concat (map (\<lambda>old. child_rows old (old\<lparr>n_deleted_at := v\<rparr>) st1) olds)"
    and st2: "st2 = fold (\<lambda>old. nodes_row_triggers old (old\<lparr>n_deleted_at := v\<rparr>)) olds st1"
  have f1: "nodes (ports_row_triggers old new s) = nodes s" for old new s
    by (simp add: ports_row_triggers_def cascade_restore_edges_on_ports_restore_def
        cascade_restore_port_values_on_ports_restore_def
        cascade_soft_delete_edges_on_ports_delete_def
        cascade_soft_delete_port_values_on_ports_delete_def)
  have f2: "nodes (fold (\<lambda>old. ports_row_triggers old (f old)) os s) = nodes s" for f os s
    by (induction os arbitrary: s) (simp_all add: f1)
  have f3: "nodes (update_ports cond w s) = nodes s" for cond w s
    by (simp add: update_ports_def f2)
  have f4: "nodes (nodes_row_triggers old new s) = nodes s" for old new s
    by (simp add: nodes_row_triggers_def cascade_restore_tags_on_nodes_restore_def
        cascade_restore_ports_on_nodes_restore_def cascade_soft_delete_tags_on_nodes_delete_def
        cascade_soft_delete_ports_on_nodes_delete_def f3)
  have f5: "nodes (fold (\<lambda>old. nodes_row_triggers old (f old)) os s) = nodes s" for f os s
    by (induction os arbitrary: s) (simp_all add: f4)
  have n2: "nodes st2 = sql_update (\<lambda>r. n_id r = c) (\<lambda>r. r\<lparr>n_deleted_at := v\<rparr>) (nodes st)"
    by (simp add: st2 st1 f5)
  have le: "length (filter (\<lambda>r. differs v (n_deleted_at r))
                (sql_update (\<lambda>r. n_id r = c) (\<lambda>r. r\<lparr>n_deleted_at := v\<rparr>) xs))
            \<le> length (filter (\<lambda>r. differs v (n_deleted_at r)) xs)" for xs
    by (induction xs) (auto simp: sql_update_def differs_def)
  have less: "length (filter (\<lambda>r. differs v (n_deleted_at r))
                (sql_update (\<lambda>r. n_id r = c) (\<lambda>r. r\<lparr>n_deleted_at := v\<rparr>) xs))
            < length (filter (\<lambda>r. differs v (n_deleted_at r)) xs)"
    if "r \<in> set xs" "n_id r = c" "differs v (n_deleted_at r)" for r xs
    using that
  proof (induction xs)
    case Nil
    then show ?case by simp
  next
    case (Cons x xs)
    show ?case
    proof (cases "r = x")
      case True
      with Cons.prems le [of xs] show ?thesis
        by (auto simp: sql_update_def differs_def)
    next
      case False
      with Cons have "length (filter (\<lambda>r. differs v (n_deleted_at r))
                (sql_update (\<lambda>r. n_id r = c) (\<lambda>r. r\<lparr>n_deleted_at := v\<rparr>) xs))
            < length (filter (\<lambda>r. differs v (n_deleted_at r)) xs)"
        by simp
      then show ?thesis by (auto simp: sql_update_def differs_def)
    qed
  qed
  show "((v, kids @ pending, st2), (v, c # pending, st))
        \<in> inv_image (less_than <*lex*> less_than)
             (\<lambda>(v, pending, st). (stale v st, length pending))"
  proof (cases "\<exists>r \<in> set (nodes st). n_id r = c \<and> differs v (n_deleted_at r)")
    case True
    then have "stale v st2 < stale v st"
      unfolding stale_def n2 using less by blast
    then show ?thesis by simp
  next
    case False
    then have "kids = []"
      by (auto simp: kids olds child_rows_def differs_def
          cascade_soft_delete_nodes_on_nodes_delete_def
          cascade_restore_nodes_on_nodes_restore_def)
    moreover have "stale v st2 \<le> stale v st"
      unfolding stale_def n2 by (rule le)
    ultimately show ?thesis by auto
  qed
qed

text \<open>
  The repository holds the triggers, not the statement that fires them. It is the
  caller's \<open>UPDATE nodes SET deleted_at = ? WHERE id = ?\<close>, with a timestamp for a soft
  delete and \<open>NULL\<close> for a restore; \<open>target_value\<close> is the value it writes. The
  statement and the triggers write \<open>deleted_at\<close> alone, a column without a constraint,
  and no trigger body raises: there is no failing case to model, and a call on an id
  without a row changes nothing.
\<close>

definition SetAlive :: "store \<Rightarrow> ident \<Rightarrow> bool \<Rightarrow> timestamp \<Rightarrow> store" where
  "SetAlive st N target ts = cascade (if target then None else Some ts) [N] st"

definition target_value :: "bool \<Rightarrow> timestamp \<Rightarrow> timestamp option" where
  "target_value target ts = (if target then None else Some ts)"

text \<open>
  A port is soft-deleted on its own by \<open>UPDATE ports SET deleted_at = ? WHERE id = ?\<close>.
\<close>

definition soft_delete_port :: "store \<Rightarrow> ident \<Rightarrow> timestamp \<Rightarrow> store" where
  "soft_delete_port st p ts = update_ports (\<lambda>r. p_id r = p) (Some ts) st"

section \<open>Example stores\<close>

text \<open>
  Rows as the loader inserts them: \<open>INSERT INTO nodes (id, type, parent_id, name,
  description)\<close> and its siblings leave \<open>deleted_at\<close> at its default \<open>NULL\<close>.
\<close>

definition insert_node_row :: "ident \<Rightarrow> string \<Rightarrow> ident option \<Rightarrow> node" where
  "insert_node_row i ty par =
     \<lparr>n_id = i, n_deleted_at = None, n_type = ty, n_parent_id = par,
      n_name = i, n_description = None\<rparr>"

definition insert_port_row :: "ident \<Rightarrow> ident \<Rightarrow> string \<Rightarrow> port" where
  "insert_port_row i n ty =
     \<lparr>p_id = i, p_deleted_at = None, p_node_id = Some n, p_port_type = ty,
      p_name = i, p_description = None\<rparr>"

definition insert_port_value_row :: "ident \<Rightarrow> ident \<Rightarrow> timestamp \<Rightarrow> port_value" where
  "insert_port_value_row i p t =
     \<lparr>v_id = i, v_deleted_at = None, v_port_id = Some p, v_timestamp = t,
      v_value_numeric = None, v_value_text = Some i, v_value_boolean = Some True,
      v_value_json = None, v_is_synced = Some False, v_last_synced = None\<rparr>"

definition insert_edge_row :: "ident \<Rightarrow> ident \<Rightarrow> ident \<Rightarrow> edge" where
  "insert_edge_row i f t =
     \<lparr>e_id = i, e_deleted_at = None, e_from_port_id = Some f, e_to_port_id = Some t,
      e_description = None\<rparr>"

definition insert_tag_row :: "ident \<Rightarrow> string \<Rightarrow> string \<Rightarrow> tag" where
  "insert_tag_row n k x = \<lparr>t_node_id = n, t_deleted_at = None, t_tag_key = k, t_tag_value = x\<rparr>"

definition empty_store :: store where
  "empty_store = \<lparr>nodes = [], ports = [], port_values = [], edges = [], tags = []\<rparr>"

definition network_only :: store where
  "network_only = empty_store\<lparr>nodes := [insert_node_row ''A'' ''network'' None]\<rparr>"

definition chain_nodes :: "node list" where
  "chain_nodes =
     [insert_node_row ''A'' ''network'' None,
      insert_node_row ''B'' ''device'' (Some ''A''),
      insert_node_row ''C'' ''point'' (Some ''B'')]"

text \<open>
  The chain network A, device B, point C and a second network X, with ports, values,
  tags and two edges; edge \<open>e1\<close> runs from a port of C to a port of X.
\<close>

definition demo :: store where
  "demo =
     \<lparr>nodes = chain_nodes @ [insert_node_row ''X'' ''network'' None],
      ports = [insert_port_row ''pB'' ''B'' ''output'', insert_port_row ''pC'' ''C'' ''input'',
               insert_port_row ''qC'' ''C'' ''output'', insert_port_row ''pX'' ''X'' ''input''],
      port_values = [insert_port_value_row ''v1'' ''pC'' 1, insert_port_value_row ''v2'' ''qC'' 2],
      edges = [insert_edge_row ''e1'' ''pC'' ''pX'', insert_edge_row ''e2'' ''qC'' ''pB''],
      tags = [insert_tag_row ''C'' ''category'' ''medium'', insert_tag_row ''C'' ''priority'' ''high'',
              insert_tag_row ''X'' ''category'' ''medium'']\<rparr>"

text \<open>
  A store with an alive node below a soft-deleted one: B is soft-deleted with its
  subtree, then its child C is restored.
\<close>

definition alive_under_dead :: store where
  "alive_under_dead = SetAlive (SetAlive demo ''B'' False 5) ''C'' True 0"

text \<open>
  A chain of four nodes, and the store reached from it by soft-deleting B, restoring C
  and soft-deleting D: the dead node D lies below the alive node C, which lies below the
  dead node B.
\<close>

definition deep_chain :: store where
  "deep_chain =
     \<lparr>nodes = chain_nodes @ [insert_node_row ''D'' ''point'' (Some ''C'')],
      ports = [], port_values = [], edges = [], tags = []\<rparr>"

definition dead_below_alive :: store where
  "dead_below_alive =
     SetAlive (SetAlive (SetAlive deep_chain ''B'' False 1) ''C'' True 0) ''D'' False 2"

text \<open>
  A network A with two devices B and C, and the nodes table after \<open>SetAlive(B, false)\<close> at
  time 7 in the order in which the index on \<open>(parent_id, deleted_at)\<close> lists the rows:
  under A the alive row C comes before the soft-deleted row B.
\<close>

definition two_devices :: store where
  "two_devices =
     \<lparr>nodes = [insert_node_row ''A'' ''network'' None,
               insert_node_row ''B'' ''device'' (Some ''A''),
               insert_node_row ''C'' ''device'' (Some ''A'')],
      ports = [], port_values = [], edges = [], tags = []\<rparr>"

definition two_devices_by_index :: "node list" where
  "two_devices_by_index =
     [insert_node_row ''A'' ''network'' None,
      insert_node_row ''C'' ''device'' (Some ''A''),
      (insert_node_row ''B'' ''device'' (Some ''A''))\<lparr>n_deleted_at := Some 7\<rparr>]"

section \<open>Notions of the statements\<close>


text \<open>
  The parent relation of a nodes table, and the foreign key on \<open>parent_id\<close>.
\<close>

definition parent_rel :: "node list \<Rightarrow> (ident \<times> ident) set" where
  "parent_rel tbl = {(n_id r, p) | r p. r \<in> set tbl \<and> n_parent_id r = Some p}"

definition parents_exist :: "node list \<Rightarrow> bool" where
  "parents_exist tbl \<longleftrightarrow> (\<forall>r \<in> set tbl. \<forall>p. n_parent_id r = Some p \<longrightarrow> p \<in> set (map n_id tbl))"

text \<open>
  The rows a cascade reaches: it starts at the pending rows whose state differs from the
  value being written and descends to every child row whose state differs too. A row
  already in the target state is not entered.
\<close>

inductive_set reached :: "timestamp option \<Rightarrow> node list \<Rightarrow> ident set \<Rightarrow> ident set"
  for v :: "timestamp option" and tbl :: "node list" and S :: "ident set" where
  start: "c \<in> S \<Longrightarrow> r \<in> set tbl \<Longrightarrow> n_id r = c \<Longrightarrow> differs v (n_deleted_at r)
          \<Longrightarrow> c \<in> reached v tbl S"
| child: "p \<in> reached v tbl S \<Longrightarrow> k \<in> set tbl \<Longrightarrow> n_parent_id k = Some p
          \<Longrightarrow> differs v (n_deleted_at k) \<Longrightarrow> n_id k \<in> reached v tbl S"

text \<open>
  The store after a cascade, written as one pass over the tables: \<open>W\<close> are the ids of
  the rows written first, \<open>R\<close> the ids of the rows reached. Ports and tags of reached
  nodes are marked when their state differs from \<open>v\<close>; values and edges are marked when
  their state differs and they refer to a port that was marked.
\<close>

definition owned_ports :: "timestamp option \<Rightarrow> port list \<Rightarrow> ident set \<Rightarrow> ident set" where
  "owned_ports v tbl R = p_id ` {p \<in> set tbl. p_node_id p \<in> Some ` R \<and> differs v (p_deleted_at p)}"

definition sweep_ports :: "timestamp option \<Rightarrow> ident set \<Rightarrow> store \<Rightarrow> store" where
  "sweep_ports v P st =
     st\<lparr>port_values :=
          sql_update (\<lambda>x. v_port_id x \<in> Some ` P \<and> differs v (v_deleted_at x))
                     (\<lambda>x. x\<lparr>v_deleted_at := v\<rparr>) (port_values st),
        edges :=
          sql_update (\<lambda>e. (e_from_port_id e \<in> Some ` P \<or> e_to_port_id e \<in> Some ` P)
                           \<and> differs v (e_deleted_at e))
                     (\<lambda>e. e\<lparr>e_deleted_at := v\<rparr>) (edges st)\<rparr>"

definition sweep_owned :: "timestamp option \<Rightarrow> ident set \<Rightarrow> store \<Rightarrow> store" where
  "sweep_owned v R st =
     (sweep_ports v (owned_ports v (ports st) R) st)
       \<lparr>ports := sql_update (\<lambda>p. p_node_id p \<in> Some ` R \<and> differs v (p_deleted_at p))
                            (\<lambda>p. p\<lparr>p_deleted_at := v\<rparr>) (ports st),
        tags := sql_update (\<lambda>t. t_node_id t \<in> R \<and> differs v (t_deleted_at t))
                           (\<lambda>t. t\<lparr>t_deleted_at := v\<rparr>) (tags st)\<rparr>"

definition sweep :: "timestamp option \<Rightarrow> ident set \<Rightarrow> ident set \<Rightarrow> store \<Rightarrow> store" where
  "sweep v W R st =
     (sweep_owned v R st)
       \<lparr>nodes := sql_update (\<lambda>r. n_id r \<in> W \<union> R) (\<lambda>r. r\<lparr>n_deleted_at := v\<rparr>) (nodes st)\<rparr>"

definition written :: "timestamp option \<Rightarrow> ident \<Rightarrow> node list \<Rightarrow> node list" where
  "written v c tbl = sql_update (\<lambda>r. n_id r = c) (\<lambda>r. r\<lparr>n_deleted_at := v\<rparr>) tbl"

text \<open>
  The subtree of \<open>N\<close>: \<open>N\<close> itself, when it has a row, and every node below it. It is
  entirely alive when its nodes, their ports and tags, and the values and incident edges
  of those ports are all alive.
\<close>

inductive_set subtree :: "node list \<Rightarrow> ident \<Rightarrow> ident set"
  for tbl :: "node list" and N :: ident where
  root: "r \<in> set tbl \<Longrightarrow> n_id r = N \<Longrightarrow> N \<in> subtree tbl N"
| child: "p \<in> subtree tbl N \<Longrightarrow> k \<in> set tbl \<Longrightarrow> n_parent_id k = Some p
          \<Longrightarrow> n_id k \<in> subtree tbl N"

definition subtree_alive :: "store \<Rightarrow> ident \<Rightarrow> bool" where
  "subtree_alive st N \<longleftrightarrow>
     (\<forall>r \<in> set (nodes st). n_id r \<in> subtree (nodes st) N \<longrightarrow> n_deleted_at r = None)
   \<and> (\<forall>p \<in> set (ports st). p_node_id p \<in> Some ` subtree (nodes st) N \<longrightarrow>
         p_deleted_at p = None
       \<and> (\<forall>x \<in> set (port_values st). v_port_id x = Some (p_id p) \<longrightarrow> v_deleted_at x = None)
       \<and> (\<forall>e \<in> set (edges st).
             e_from_port_id e = Some (p_id p) \<or> e_to_port_id e = Some (p_id p)
             \<longrightarrow> e_deleted_at e = None))
   \<and> (\<forall>t \<in> set (tags st). t_node_id t \<in> subtree (nodes st) N \<longrightarrow> t_deleted_at t = None)"

section \<open>Updates and triggers as marked rows\<close>

lemma sql_update_length [simp]: "length (sql_update P u xs) = length xs"
  by (simp add: sql_update_def)

lemma sql_update_fuse:
  assumes "\<And>r. u (u r) = u r"
  shows "sql_update P u (sql_update Q u xs) = sql_update (\<lambda>r. Q r \<or> P r) u xs"
  using assms by (simp add: sql_update_def)

lemma sql_update_cong:
  "(\<And>r. r \<in> set xs \<Longrightarrow> P r = Q r) \<Longrightarrow> sql_update P u xs = sql_update Q u xs"
  by (simp add: sql_update_def)

lemma sql_update_none: "(\<And>r. r \<in> set xs \<Longrightarrow> \<not> P r) \<Longrightarrow> sql_update P u xs = xs"
  by (simp add: sql_update_def map_idI)

lemma in_sql_update:
  "r' \<in> set (sql_update P u tbl) \<longleftrightarrow> (\<exists>r \<in> set tbl. r' = (if P r then u r else r))"
  by (auto simp: sql_update_def)

lemma in_sql_updateD:
  "r' \<in> set (sql_update P u tbl) \<Longrightarrow> (r' \<in> set tbl \<and> \<not> P r') \<or> (\<exists>r \<in> set tbl. P r \<and> r' = u r)"
  by (auto simp: sql_update_def)

lemma sql_update_roundtrip:
  assumes "\<And>r. r \<in> set xs \<Longrightarrow> P r \<Longrightarrow> Q (u1 r) \<and> u2 (u1 r) = r"
    and "\<And>r. r \<in> set xs \<Longrightarrow> \<not> P r \<Longrightarrow> \<not> Q r"
  shows "sql_update Q u2 (sql_update P u1 xs) = xs"
  using assms by (induction xs) (simp_all add: sql_update_def)

lemma differs_same [simp]: "\<not> differs v v"
  by (cases v) (simp_all add: differs_def)

lemma differs_None [simp]: "differs None d \<longleftrightarrow> d \<noteq> None"
  by (simp add: differs_def)

lemma differs_Some [simp]: "differs (Some t) d \<longleftrightarrow> d = None"
  by (simp add: differs_def)

lemma differs_target_value [simp]:
  "differs (target_value target ts) d \<longleftrightarrow> (d = None) \<noteq> target"
  by (auto simp: target_value_def)

lemma nodes_ports_row_triggers [simp]: "nodes (ports_row_triggers old new st) = nodes st"
  by (simp add: ports_row_triggers_def cascade_restore_edges_on_ports_restore_def
      cascade_restore_port_values_on_ports_restore_def cascade_soft_delete_edges_on_ports_delete_def
      cascade_soft_delete_port_values_on_ports_delete_def)

lemma nodes_fold_ports_row_triggers [simp]:
  "nodes (fold (\<lambda>old. ports_row_triggers old (f old)) olds st) = nodes st"
  by (induction olds arbitrary: st) simp_all

lemma nodes_update_ports [simp]: "nodes (update_ports cond v st) = nodes st"
  by (simp add: update_ports_def)

lemma nodes_nodes_row_triggers [simp]: "nodes (nodes_row_triggers old new st) = nodes st"
  by (simp add: nodes_row_triggers_def cascade_restore_tags_on_nodes_restore_def
      cascade_restore_ports_on_nodes_restore_def cascade_soft_delete_tags_on_nodes_delete_def
      cascade_soft_delete_ports_on_nodes_delete_def)

lemma nodes_fold_nodes_row_triggers [simp]:
  "nodes (fold (\<lambda>old. nodes_row_triggers old (f old)) olds st) = nodes st"
  by (induction olds arbitrary: st) simp_all

lemma child_rows_eq:
  "child_rows old (old\<lparr>n_deleted_at := v\<rparr>) st =
     (if differs v (n_deleted_at old)
      then map n_id (filter (\<lambda>k. n_parent_id k = Some (n_id old) \<and> differs v (n_deleted_at k)) (nodes st))
      else [])"
  by (cases v) (auto simp: child_rows_def differs_def cascade_soft_delete_nodes_on_nodes_delete_def
      cascade_restore_nodes_on_nodes_restore_def intro!: arg_cong [where f = "map n_id"] filter_cong)

lemma ports_row_triggers_eq:
  "ports_row_triggers old (old\<lparr>p_deleted_at := v\<rparr>) st =
     (if differs v (p_deleted_at old) then sweep_ports v {p_id old} st else st)"
  by (cases v) (simp_all add: ports_row_triggers_def sweep_ports_def
      cascade_restore_edges_on_ports_restore_def cascade_restore_port_values_on_ports_restore_def
      cascade_soft_delete_edges_on_ports_delete_def cascade_soft_delete_port_values_on_ports_delete_def)

lemma sweep_ports_fuse: "sweep_ports v P (sweep_ports v Q st) = sweep_ports v (Q \<union> P) st"
proof -
  have "sql_update (\<lambda>x. v_port_id x \<in> Some ` P \<and> differs v (v_deleted_at x))
          (\<lambda>x. x\<lparr>v_deleted_at := v\<rparr>)
          (sql_update (\<lambda>x. v_port_id x \<in> Some ` Q \<and> differs v (v_deleted_at x))
             (\<lambda>x. x\<lparr>v_deleted_at := v\<rparr>) (port_values st))
        = sql_update (\<lambda>x. v_port_id x \<in> Some ` (Q \<union> P) \<and> differs v (v_deleted_at x))
            (\<lambda>x. x\<lparr>v_deleted_at := v\<rparr>) (port_values st)"
    by (subst sql_update_fuse) (auto intro!: sql_update_cong)
  moreover have "sql_update (\<lambda>e. (e_from_port_id e \<in> Some ` P \<or> e_to_port_id e \<in> Some ` P)
                           \<and> differs v (e_deleted_at e))
          (\<lambda>e. e\<lparr>e_deleted_at := v\<rparr>)
          (sql_update (\<lambda>e. (e_from_port_id e \<in> Some ` Q \<or> e_to_port_id e \<in> Some ` Q)
                           \<and> differs v (e_deleted_at e))
             (\<lambda>e. e\<lparr>e_deleted_at := v\<rparr>) (edges st))
        = sql_update (\<lambda>e. (e_from_port_id e \<in> Some ` (Q \<union> P) \<or> e_to_port_id e \<in> Some ` (Q \<union> P))
                           \<and> differs v (e_deleted_at e))
            (\<lambda>e. e\<lparr>e_deleted_at := v\<rparr>) (edges st)"
    by (subst sql_update_fuse) (auto intro!: sql_update_cong)
  ultimately show ?thesis by (simp add: sweep_ports_def)
qed

lemma sweep_ports_empty [simp]: "sweep_ports v {} st = st"
  by (simp add: sweep_ports_def sql_update_none)

lemma fold_ports_row_triggers:
  "fold (\<lambda>old. ports_row_triggers old (old\<lparr>p_deleted_at := v\<rparr>)) olds st =
     sweep_ports v (p_id ` {p \<in> set olds. differs v (p_deleted_at p)}) st"
proof (induction olds arbitrary: st)
  case Nil
  then show ?case by simp
next
  case (Cons old olds)
  show ?case
  proof (cases "differs v (p_deleted_at old)")
    case True
    have "p_id ` {p \<in> set (old # olds). differs v (p_deleted_at p)}
          = {p_id old} \<union> p_id ` {p \<in> set olds. differs v (p_deleted_at p)}"
      using True by auto
    moreover have "fold (\<lambda>old. ports_row_triggers old (old\<lparr>p_deleted_at := v\<rparr>)) (old # olds) st
        = sweep_ports v (p_id ` {p \<in> set olds. differs v (p_deleted_at p)}) (sweep_ports v {p_id old} st)"
      by (simp only: fold_simps Cons.IH ports_row_triggers_eq True if_True)
    ultimately show ?thesis
      by (simp only: sweep_ports_fuse)
  next
    case False
    have "p_id ` {p \<in> set (old # olds). differs v (p_deleted_at p)}
          = p_id ` {p \<in> set olds. differs v (p_deleted_at p)}"
      using False by auto
    moreover have "fold (\<lambda>old. ports_row_triggers old (old\<lparr>p_deleted_at := v\<rparr>)) (old # olds) st
        = sweep_ports v (p_id ` {p \<in> set olds. differs v (p_deleted_at p)}) st"
      by (simp only: fold_simps Cons.IH ports_row_triggers_eq False if_False)
    ultimately show ?thesis
      by simp
  qed
qed

lemma update_ports_eq:
  "update_ports cond v st =
     (sweep_ports v (p_id ` {p \<in> set (ports st). cond p \<and> differs v (p_deleted_at p)}) st)
       \<lparr>ports := sql_update cond (\<lambda>p. p\<lparr>p_deleted_at := v\<rparr>) (ports st)\<rparr>"
proof -
  have "{p \<in> set (filter cond (ports st)). differs v (p_deleted_at p)}
        = {p \<in> set (ports st). cond p \<and> differs v (p_deleted_at p)}"
    by auto
  then show ?thesis
    by (simp add: update_ports_def fold_ports_row_triggers sweep_ports_def)
qed

lemma nodes_row_triggers_eq:
  "nodes_row_triggers old (old\<lparr>n_deleted_at := v\<rparr>) st =
     (if differs v (n_deleted_at old) then sweep_owned v {n_id old} st else st)"
proof (cases v)
  case None
  have "(\<lambda>p. p_node_id p = Some (n_id old) \<and> (\<exists>y. p_deleted_at p = Some y))
        = (\<lambda>p. p_node_id p \<in> Some ` {n_id old} \<and> differs None (p_deleted_at p))"
    by auto
  then show ?thesis unfolding None
    apply (simp add: nodes_row_triggers_def sweep_owned_def owned_ports_def
      cascade_restore_tags_on_nodes_restore_def cascade_restore_ports_on_nodes_restore_def
      cascade_soft_delete_tags_on_nodes_delete_def cascade_soft_delete_ports_on_nodes_delete_def
      update_ports_eq)
    apply (simp add: sweep_ports_def)
    done
next
  case (Some t)
  then show ?thesis
    apply (simp add: nodes_row_triggers_def sweep_owned_def owned_ports_def
      cascade_restore_tags_on_nodes_restore_def cascade_restore_ports_on_nodes_restore_def
      cascade_soft_delete_tags_on_nodes_delete_def cascade_soft_delete_ports_on_nodes_delete_def
      update_ports_eq)
    apply (simp add: sweep_ports_def)
    done
qed

lemma set_sql_update_differs:
  "{p \<in> set (sql_update (\<lambda>p. Q p \<and> differs v (p_deleted_at p)) (\<lambda>p. p\<lparr>p_deleted_at := v\<rparr>) tbl).
      differs v (p_deleted_at p) \<and> C p}
   = {p \<in> set tbl. \<not> Q p \<and> differs v (p_deleted_at p) \<and> C p}"
  by (auto simp: sql_update_def)

lemma owned_ports_after:
  "owned_ports v (sql_update (\<lambda>p. p_node_id p \<in> Some ` Q \<and> differs v (p_deleted_at p))
                             (\<lambda>p. p\<lparr>p_deleted_at := v\<rparr>) tbl) R
   \<union> owned_ports v tbl Q = owned_ports v tbl (Q \<union> R)"
proof -
  have "{p \<in> set (sql_update (\<lambda>p. p_node_id p \<in> Some ` Q \<and> differs v (p_deleted_at p))
                             (\<lambda>p. p\<lparr>p_deleted_at := v\<rparr>) tbl).
            p_node_id p \<in> Some ` R \<and> differs v (p_deleted_at p)}
        = {p \<in> set tbl. p_node_id p \<notin> Some ` Q \<and> differs v (p_deleted_at p) \<and> p_node_id p \<in> Some ` R}"
    by (auto simp: sql_update_def)
  then show ?thesis
    unfolding owned_ports_def by auto
qed

lemma ports_sweep_ports [simp]: "ports (sweep_ports v P st) = ports st"
  and tags_sweep_ports [simp]: "tags (sweep_ports v P st) = tags st"
  and nodes_sweep_ports [simp]: "nodes (sweep_ports v P st) = nodes st"
  by (simp_all add: sweep_ports_def)

lemma sweep_ports_ports_update:
  "sweep_ports v P (st\<lparr>ports := x\<rparr>) = (sweep_ports v P st)\<lparr>ports := x\<rparr>"
  and sweep_ports_tags_update:
  "sweep_ports v P (st\<lparr>tags := y\<rparr>) = (sweep_ports v P st)\<lparr>tags := y\<rparr>"
  and sweep_ports_nodes_update:
  "sweep_ports v P (st\<lparr>nodes := z\<rparr>) = (sweep_ports v P st)\<lparr>nodes := z\<rparr>"
  by (simp_all add: sweep_ports_def)

lemma sweep_owned_fuse: "sweep_owned v R (sweep_owned v Q st) = sweep_owned v (Q \<union> R) st"
proof -
  have p: "sql_update (\<lambda>p. p_node_id p \<in> Some ` R \<and> differs v (p_deleted_at p))
             (\<lambda>p. p\<lparr>p_deleted_at := v\<rparr>)
             (sql_update (\<lambda>p. p_node_id p \<in> Some ` Q \<and> differs v (p_deleted_at p))
                (\<lambda>p. p\<lparr>p_deleted_at := v\<rparr>) (ports st))
           = sql_update (\<lambda>p. p_node_id p \<in> Some ` (Q \<union> R) \<and> differs v (p_deleted_at p))
               (\<lambda>p. p\<lparr>p_deleted_at := v\<rparr>) (ports st)"
    by (subst sql_update_fuse) (auto intro!: sql_update_cong)
  have t: "sql_update (\<lambda>t. t_node_id t \<in> R \<and> differs v (t_deleted_at t))
             (\<lambda>t. t\<lparr>t_deleted_at := v\<rparr>)
             (sql_update (\<lambda>t. t_node_id t \<in> Q \<and> differs v (t_deleted_at t))
                (\<lambda>t. t\<lparr>t_deleted_at := v\<rparr>) (tags st))
           = sql_update (\<lambda>t. t_node_id t \<in> Q \<union> R \<and> differs v (t_deleted_at t))
               (\<lambda>t. t\<lparr>t_deleted_at := v\<rparr>) (tags st)"
    by (subst sql_update_fuse) (auto intro!: sql_update_cong)
  show ?thesis
    unfolding sweep_owned_def
    by (simp add: sweep_ports_ports_update sweep_ports_tags_update sweep_ports_fuse
        owned_ports_after [simplified Un_commute] p t Un_commute)
qed

lemma owned_ports_empty [simp]: "owned_ports v tbl {} = {}"
  by (simp add: owned_ports_def)

lemma sweep_owned_empty [simp]: "sweep_owned v {} st = st"
  by (simp add: sweep_owned_def sql_update_none)

lemma fold_nodes_row_triggers:
  assumes "\<forall>old \<in> set olds. n_id old = c"
  shows "fold (\<lambda>old. nodes_row_triggers old (old\<lparr>n_deleted_at := v\<rparr>)) olds st =
     (if \<exists>old \<in> set olds. differs v (n_deleted_at old) then sweep_owned v {c} st else st)"
  using assms
proof (induction olds arbitrary: st)
  case Nil
  then show ?case by simp
next
  case (Cons old olds)
  then have c: "n_id old = c" and rest: "\<forall>old \<in> set olds. n_id old = c" by simp_all
  have step: "fold (\<lambda>old. nodes_row_triggers old (old\<lparr>n_deleted_at := v\<rparr>)) (old # olds) st
      = (if \<exists>old \<in> set olds. differs v (n_deleted_at old)
         then sweep_owned v {c} (nodes_row_triggers old (old\<lparr>n_deleted_at := v\<rparr>) st)
         else nodes_row_triggers old (old\<lparr>n_deleted_at := v\<rparr>) st)"
    by (simp only: fold_simps Cons.IH [OF rest])
  show ?case
    unfolding step
    by (simp add: nodes_row_triggers_eq c sweep_owned_fuse)
qed

lemma sweep_owned_nodes_update:
  "sweep_owned v R (st\<lparr>nodes := z\<rparr>) = (sweep_owned v R st)\<lparr>nodes := z\<rparr>"
  by (simp add: sweep_owned_def sweep_ports_def)

lemma nodes_sweep_owned [simp]: "nodes (sweep_owned v R st) = nodes st"
  by (simp add: sweep_owned_def)

section \<open>The rows a cascade reaches\<close>

lemma written_differs:
  "k \<in> set (written v c tbl) \<Longrightarrow> differs v (n_deleted_at k) \<Longrightarrow> k \<in> set tbl \<and> n_id k \<noteq> c"
  by (auto simp: written_def sql_update_def split: if_splits)

lemma differs_written:
  "k \<in> set tbl \<Longrightarrow> n_id k \<noteq> c \<Longrightarrow> k \<in> set (written v c tbl)"
  by (force simp: written_def sql_update_def)

lemma reached_mono:
  assumes "x \<in> reached v tbl S" "S \<subseteq> T"
  shows "x \<in> reached v tbl T"
  using assms
proof (induction rule: reached.induct)
  case (start c r)
  then show ?case by (auto intro: reached.start)
next
  case (child p k)
  then show ?case by (auto intro: reached.child)
qed

lemma reached_written_sub:
  assumes "x \<in> reached v (written v c tbl) S"
  shows "x \<in> reached v tbl S"
  using assms
proof (induction rule: reached.induct)
  case (start d r)
  then show ?case using written_differs [of r v c tbl] by (auto intro: reached.start)
next
  case (child p k)
  then show ?case using written_differs [of k v c tbl] by (auto intro: reached.child)
qed

lemma reached_fired:
  assumes fired: "r \<in> set tbl" "n_id r = c" "differs v (n_deleted_at r)"
    and K: "K = n_id ` {k \<in> set (written v c tbl). n_parent_id k = Some c \<and> differs v (n_deleted_at k)}"
  shows "reached v tbl (insert c S) = insert c (reached v (written v c tbl) (K \<union> S))"
proof (intro set_eqI iffI)
  fix x
  assume "x \<in> reached v tbl (insert c S)"
  then show "x \<in> insert c (reached v (written v c tbl) (K \<union> S))"
  proof (induction rule: reached.induct)
    case (start d r')
    show ?case
    proof (cases "d = c")
      case True
      then show ?thesis by simp
    next
      case False
      with start have "d \<in> K \<union> S" "r' \<in> set (written v c tbl)"
        by (auto intro: differs_written)
      with start show ?thesis by (auto intro: reached.start)
    qed
  next
    case (child p k)
    show ?case
    proof (cases "n_id k = c")
      case True
      then show ?thesis by simp
    next
      case False
      with child have kw: "k \<in> set (written v c tbl)" by (auto intro: differs_written)
      show ?thesis
      proof (cases "p = c")
        case True
        with child kw have "n_id k \<in> K" unfolding K by auto
        with child kw show ?thesis by (auto intro: reached.start)
      next
        case False
        with child have "p \<in> reached v (written v c tbl) (K \<union> S)" by simp
        with child kw show ?thesis by (auto intro: reached.child)
      qed
    qed
  qed
next
  fix x
  assume x: "x \<in> insert c (reached v (written v c tbl) (K \<union> S))"
  have c: "c \<in> reached v tbl (insert c S)"
    using fired by (auto intro: reached.start)
  have Kc: "K \<subseteq> reached v tbl (insert c S)"
  proof
    fix y assume "y \<in> K"
    then obtain k where k: "k \<in> set (written v c tbl)" "n_parent_id k = Some c"
      "differs v (n_deleted_at k)" "y = n_id k"
      unfolding K by auto
    then have "k \<in> set tbl" using written_differs by blast
    with k c show "y \<in> reached v tbl (insert c S)" by (auto intro: reached.child)
  qed
  show "x \<in> reached v tbl (insert c S)"
  proof (cases "x = c")
    case True
    then show ?thesis using c by simp
  next
    case False
    with x have "x \<in> reached v (written v c tbl) (K \<union> S)" by simp
    then show ?thesis
    proof (induction rule: reached.induct)
      case (start d r')
      then have r': "r' \<in> set tbl" using written_differs by blast
      from start(1) show ?case
      proof
        assume "d \<in> K"
        then show ?thesis using Kc by blast
      next
        assume "d \<in> S"
        then show ?thesis using start r' by (auto intro: reached.start)
      qed
    next
      case (child p k)
      then have "k \<in> set tbl" using written_differs by blast
      with child show ?case by (auto intro: reached.child)
    qed
  qed
qed

lemma reached_not_fired:
  assumes "\<forall>r \<in> set tbl. n_id r = c \<longrightarrow> \<not> differs v (n_deleted_at r)"
  shows "reached v (written v c tbl) S = reached v tbl (insert c S)"
proof (intro set_eqI iffI)
  fix x
  assume "x \<in> reached v (written v c tbl) S"
  then have "x \<in> reached v tbl S" by (rule reached_written_sub)
  then show "x \<in> reached v tbl (insert c S)" by (rule reached_mono) auto
next
  fix x
  assume "x \<in> reached v tbl (insert c S)"
  then show "x \<in> reached v (written v c tbl) S"
  proof (induction rule: reached.induct)
    case (start d r)
    with assms have "d \<noteq> c" by auto
    with start show ?case by (auto intro: reached.start differs_written)
  next
    case (child p k)
    with assms have "n_id k \<noteq> c" by auto
    with child show ?case by (auto intro: reached.child differs_written)
  qed
qed

lemma reached_empty [simp]: "reached v tbl {} = {}"
proof -
  have "x \<notin> reached v tbl {}" for x
  proof
    assume "x \<in> reached v tbl {}"
    then show False by (induction rule: reached.induct) auto
  qed
  then show ?thesis by auto
qed


lemma reached_descends:
  assumes "x \<in> reached v tbl S"
  shows "\<exists>s \<in> S. (x, s) \<in> (parent_rel tbl)\<^sup>*"
  using assms
proof (induction rule: reached.induct)
  case (start c r)
  then show ?case by blast
next
  case (child p k)
  then obtain s where s: "s \<in> S" "(p, s) \<in> (parent_rel tbl)\<^sup>*" by blast
  from child have "(n_id k, p) \<in> parent_rel tbl" by (auto simp: parent_rel_def)
  with s have "(n_id k, s) \<in> (parent_rel tbl)\<^sup>*"
    by (simp add: converse_rtrancl_into_rtrancl)
  with s show ?case by blast
qed

lemma reached_subtree:
  assumes "x \<in> reached v tbl {N}"
  shows "x \<in> subtree tbl N"
  using assms
proof (induction rule: reached.induct)
  case (start c r)
  then show ?case by (auto intro: subtree.root)
next
  case (child p k)
  then show ?case by (auto intro: subtree.child)
qed

lemma subtree_reached:
  assumes "x \<in> subtree tbl N"
    and "\<And>r. r \<in> set tbl \<Longrightarrow> n_id r \<in> subtree tbl N \<Longrightarrow> differs v (n_deleted_at r)"
  shows "x \<in> reached v tbl {N}"
  using assms(1)
proof (induction rule: subtree.induct)
  case (root r)
  then have "differs v (n_deleted_at r)"
    using assms(2) [of r] subtree.root [of r tbl N] by simp
  with root show ?case by (auto intro: reached.start)
next
  case (child p k)
  then have "differs v (n_deleted_at k)"
    using assms(2) [of k] subtree.child [of p tbl N k] by simp
  with child show ?case by (auto intro: reached.child)
qed

lemma subtree_sql_update:
  "subtree (sql_update P (\<lambda>r. r\<lparr>n_deleted_at := v\<rparr>) tbl) N = subtree tbl N"
proof (intro set_eqI iffI)
  fix x assume "x \<in> subtree (sql_update P (\<lambda>r. r\<lparr>n_deleted_at := v\<rparr>) tbl) N"
  then show "x \<in> subtree tbl N"
  proof (induction rule: subtree.induct)
    case (root r)
    then obtain r0 where "r0 \<in> set tbl" "n_id r0 = N"
      by (auto dest!: in_sql_updateD)
    then show ?case by (rule subtree.root)
  next
    case (child p k)
    then obtain k0 where "k0 \<in> set tbl" "n_parent_id k0 = Some p" "n_id k0 = n_id k"
      by (auto dest!: in_sql_updateD)
    with child show ?case using subtree.child [of p tbl N k0] by simp
  qed
next
  fix x assume "x \<in> subtree tbl N"
  then show "x \<in> subtree (sql_update P (\<lambda>r. r\<lparr>n_deleted_at := v\<rparr>) tbl) N"
  proof (induction rule: subtree.induct)
    case (root r)
    define r' where "r' = (if P r then r\<lparr>n_deleted_at := v\<rparr> else r)"
    have "r' \<in> set (sql_update P (\<lambda>r. r\<lparr>n_deleted_at := v\<rparr>) tbl)"
      using root by (auto simp: in_sql_update r'_def)
    moreover have "n_id r' = N" using root by (simp add: r'_def)
    ultimately show ?case by (rule subtree.root)
  next
    case (child p k)
    define k' where "k' = (if P k then k\<lparr>n_deleted_at := v\<rparr> else k)"
    have "k' \<in> set (sql_update P (\<lambda>r. r\<lparr>n_deleted_at := v\<rparr>) tbl)"
      using child by (auto simp: in_sql_update k'_def)
    moreover have "n_parent_id k' = Some p" using child by (simp add: k'_def)
    ultimately have "n_id k' \<in> subtree (sql_update P (\<lambda>r. r\<lparr>n_deleted_at := v\<rparr>) tbl) N"
      using child.IH by (intro subtree.child)
    moreover have "n_id k' = n_id k" by (simp add: k'_def)
    ultimately show ?case by simp
  qed
qed

section \<open>The cascade is one sweep\<close>

lemma sweep_empty [simp]: "sweep v {} {} st = st"
  by (simp add: sweep_def sql_update_none)

lemma kids_set:
  "set (concat (map (\<lambda>old. child_rows old (old\<lparr>n_deleted_at := v\<rparr>) st1)
                    (filter (\<lambda>r. n_id r = c) tbl)))
   = (if \<exists>r \<in> set tbl. n_id r = c \<and> differs v (n_deleted_at r)
      then n_id ` {k \<in> set (nodes st1). n_parent_id k = Some c \<and> differs v (n_deleted_at k)}
      else {})"
  by (auto simp: child_rows_eq)

lemma nodes_fuse:
  "sql_update P (\<lambda>r. r\<lparr>n_deleted_at := v\<rparr>) (written v c tbl)
   = sql_update (\<lambda>r. n_id r = c \<or> P r) (\<lambda>r. r\<lparr>n_deleted_at := v\<rparr>) tbl"
  unfolding written_def
  by (subst sql_update_fuse) simp_all

lemma sweep_written:
  "sweep v W R (st\<lparr>nodes := written v c (nodes st)\<rparr>) = sweep v (insert c W) R st"
  by (simp add: sweep_def sweep_owned_nodes_update nodes_fuse)

lemma sweep_after_owned:
  assumes "K \<subseteq> R"
  shows "sweep v (K \<union> W) R (sweep_owned v {c} (st\<lparr>nodes := written v c (nodes st)\<rparr>))
         = sweep v (insert c W) (insert c R) st"
proof -
  have "sql_update (\<lambda>r. n_id r \<in> K \<union> W \<union> R) (\<lambda>r. r\<lparr>n_deleted_at := v\<rparr>) (written v c (nodes st))
      = sql_update (\<lambda>r. n_id r \<in> insert c W \<union> insert c R) (\<lambda>r. r\<lparr>n_deleted_at := v\<rparr>) (nodes st)"
    unfolding nodes_fuse using assms by (intro sql_update_cong) auto
  then show ?thesis
    by (simp add: sweep_def sweep_owned_nodes_update sweep_owned_fuse)
qed

lemma cascade_sweep:
  "cascade v pending st = sweep v (set pending) (reached v (nodes st) (set pending)) st"
proof (induction v pending st rule: cascade.induct)
  case (1 v st)
  then show ?case by simp
next
  case (2 v c pending st)
  define olds where "olds = filter (\<lambda>r. n_id r = c) (nodes st)"
  define st1 where "st1 = st\<lparr>nodes := written v c (nodes st)\<rparr>"
  define kids where "kids = concat (map (\<lambda>old. child_rows old (old\<lparr>n_deleted_at := v\<rparr>) st1) olds)"
  define st2 where "st2 = fold (\<lambda>old. nodes_row_triggers old (old\<lparr>n_deleted_at := v\<rparr>)) olds st1"
  define S where "S = set pending"
  have unfold: "cascade v (c # pending) st = cascade v (kids @ pending) st2"
    by (simp add: olds_def st1_def kids_def st2_def written_def Let_def)
  have IH: "cascade v (kids @ pending) st2
      = sweep v (set kids \<union> S) (reached v (nodes st2) (set kids \<union> S)) st2"
    using "2.IH" [of olds st1 kids st2]
    by (simp add: olds_def st1_def kids_def st2_def written_def S_def)
  have n2: "nodes st2 = written v c (nodes st)"
    by (simp add: st2_def st1_def)
  have olds_c: "\<forall>old \<in> set olds. n_id old = c" by (simp add: olds_def)
  have olds_ex: "(\<exists>old \<in> set olds. differs v (n_deleted_at old))
      \<longleftrightarrow> (\<exists>r \<in> set (nodes st). n_id r = c \<and> differs v (n_deleted_at r))"
    by (auto simp: olds_def)
  show ?case
  proof (cases "\<exists>r \<in> set (nodes st). n_id r = c \<and> differs v (n_deleted_at r)")
    case True
    then obtain r where r: "r \<in> set (nodes st)" "n_id r = c" "differs v (n_deleted_at r)"
      by blast
    have K: "set kids = n_id ` {k \<in> set (written v c (nodes st)).
                 n_parent_id k = Some c \<and> differs v (n_deleted_at k)}"
      unfolding kids_def olds_def kids_set using True by (simp add: st1_def)
    have st2: "st2 = sweep_owned v {c} st1"
      using True by (simp add: st2_def fold_nodes_row_triggers [OF olds_c] olds_ex)
    have R: "reached v (nodes st) (insert c S)
        = insert c (reached v (written v c (nodes st)) (set kids \<union> S))"
      by (rule reached_fired [OF r K])
    have sub: "set kids \<subseteq> reached v (written v c (nodes st)) (set kids \<union> S)"
      unfolding K by (auto intro: reached.start)
    have "cascade v (c # pending) st
        = sweep v (set kids \<union> S) (reached v (written v c (nodes st)) (set kids \<union> S))
            (sweep_owned v {c} st1)"
      by (simp only: unfold IH n2, simp only: st2)
    also have "\<dots> = sweep v (insert c S) (insert c (reached v (written v c (nodes st)) (set kids \<union> S))) st"
      unfolding st1_def by (rule sweep_after_owned [OF sub])
    also have "\<dots> = sweep v (insert c S) (reached v (nodes st) (insert c S)) st"
      by (simp add: R)
    finally show ?thesis by (simp add: S_def)
  next
    case False
    then have K: "kids = []"
      by (auto simp: kids_def olds_def child_rows_eq)
    have st2: "st2 = st1"
      using False unfolding st2_def fold_nodes_row_triggers [OF olds_c] olds_ex by auto
    have R: "reached v (written v c (nodes st)) S = reached v (nodes st) (insert c S)"
      using False by (intro reached_not_fired) auto
    have "cascade v (c # pending) st = sweep v S (reached v (written v c (nodes st)) S) st1"
      by (simp only: unfold IH n2, simp add: st2 K)
    also have "\<dots> = sweep v (insert c S) (reached v (nodes st) (insert c S)) st"
      by (simp add: st1_def sweep_written R)
    finally show ?thesis by (simp add: S_def)
  qed
qed

lemma SetAlive_sweep:
  "SetAlive st N target ts
   = sweep (target_value target ts) {N} (reached (target_value target ts) (nodes st) {N}) st"
  by (simp add: SetAlive_def target_value_def cascade_sweep)


section \<open>Rows after a sweep\<close>

lemma nodes_sweep: "nodes (sweep v W R st)
    = sql_update (\<lambda>r. n_id r \<in> W \<union> R) (\<lambda>r. r\<lparr>n_deleted_at := v\<rparr>) (nodes st)"
  and ports_sweep: "ports (sweep v W R st)
    = sql_update (\<lambda>p. p_node_id p \<in> Some ` R \<and> differs v (p_deleted_at p))
        (\<lambda>p. p\<lparr>p_deleted_at := v\<rparr>) (ports st)"
  and port_values_sweep: "port_values (sweep v W R st)
    = sql_update (\<lambda>x. v_port_id x \<in> Some ` owned_ports v (ports st) R \<and> differs v (v_deleted_at x))
        (\<lambda>x. x\<lparr>v_deleted_at := v\<rparr>) (port_values st)"
  and edges_sweep: "edges (sweep v W R st)
    = sql_update (\<lambda>e. (e_from_port_id e \<in> Some ` owned_ports v (ports st) R
                       \<or> e_to_port_id e \<in> Some ` owned_ports v (ports st) R)
                      \<and> differs v (e_deleted_at e))
        (\<lambda>e. e\<lparr>e_deleted_at := v\<rparr>) (edges st)"
  and tags_sweep: "tags (sweep v W R st)
    = sql_update (\<lambda>t. t_node_id t \<in> R \<and> differs v (t_deleted_at t))
        (\<lambda>t. t\<lparr>t_deleted_at := v\<rparr>) (tags st)"
  by (simp_all add: sweep_def sweep_owned_def sweep_ports_def)

lemma sweep_node_rows:
  assumes "c \<in> R" "r \<in> set (nodes (sweep v W R st))" "n_id r = c"
  shows "n_deleted_at r = v"
  using assms by (auto simp: nodes_sweep dest!: in_sql_updateD)

lemma sweep_child_rows:
  assumes "c \<in> reached v (nodes st) S"
    and "k \<in> set (nodes (sweep v W (reached v (nodes st) S) st))" "n_parent_id k = Some c"
  shows "\<not> differs v (n_deleted_at k)"
proof -
  obtain k0 where k0: "k0 \<in> set (nodes st)"
    "k = (if n_id k0 \<in> W \<union> reached v (nodes st) S then k0\<lparr>n_deleted_at := v\<rparr> else k0)"
    using assms(2) by (auto simp: nodes_sweep in_sql_update)
  show ?thesis
  proof (cases "n_id k0 \<in> W \<union> reached v (nodes st) S")
    case True
    with k0 show ?thesis by simp
  next
    case False
    with k0 assms have "k = k0" "n_parent_id k0 = Some c" by simp_all
    with False k0 assms(1) show ?thesis
      using reached.child [of c v "nodes st" S k0] by auto
  qed
qed

lemma sweep_port_rows:
  assumes "c \<in> R" "p \<in> set (ports (sweep v W R st))" "p_node_id p = Some c"
  shows "\<not> differs v (p_deleted_at p)"
  using assms by (auto simp: ports_sweep dest!: in_sql_updateD)

lemma sweep_tag_rows:
  assumes "c \<in> R" "t \<in> set (tags (sweep v W R st))" "t_node_id t = c"
  shows "\<not> differs v (t_deleted_at t)"
  using assms by (auto simp: tags_sweep dest!: in_sql_updateD)

lemma owned_portsI:
  "c \<in> R \<Longrightarrow> q \<in> set tbl \<Longrightarrow> p_node_id q = Some c \<Longrightarrow> differs v (p_deleted_at q)
   \<Longrightarrow> p_id q \<in> owned_ports v tbl R"
  by (auto simp: owned_ports_def)

lemma sweep_value_rows:
  assumes "c \<in> R" "q \<in> set (ports st)" "p_node_id q = Some c" "differs v (p_deleted_at q)"
    and "x \<in> set (port_values (sweep v W R st))" "v_port_id x = Some (p_id q)"
  shows "\<not> differs v (v_deleted_at x)"
proof -
  have "p_id q \<in> owned_ports v (ports st) R"
    using assms(1-4) by (rule owned_portsI)
  with assms(5,6) show ?thesis
    by (auto simp: port_values_sweep dest!: in_sql_updateD)
qed

lemma sweep_edge_rows:
  assumes "c \<in> R" "q \<in> set (ports st)" "p_node_id q = Some c" "differs v (p_deleted_at q)"
    and "e \<in> set (edges (sweep v W R st))"
    and "e_from_port_id e = Some (p_id q) \<or> e_to_port_id e = Some (p_id q)"
  shows "\<not> differs v (e_deleted_at e)"
proof -
  have "p_id q \<in> owned_ports v (ports st) R"
    using assms(1-4) by (rule owned_portsI)
  with assms(5,6) show ?thesis
    by (auto simp: edges_sweep dest!: in_sql_updateD)
qed

lemma sweep_reached_rows:
  assumes c: "c \<in> R" and R: "R = reached v (nodes st) S"
  shows "(\<forall>r \<in> set (nodes (sweep v W R st)).
            n_id r = c \<or> n_parent_id r = Some c \<longrightarrow> \<not> differs v (n_deleted_at r))
       \<and> (\<forall>p \<in> set (ports (sweep v W R st)).
            p_node_id p = Some c \<longrightarrow> \<not> differs v (p_deleted_at p))
       \<and> (\<forall>t \<in> set (tags (sweep v W R st)).
            t_node_id t = c \<longrightarrow> \<not> differs v (t_deleted_at t))
       \<and> (\<forall>q \<in> set (ports st). p_node_id q = Some c \<and> differs v (p_deleted_at q) \<longrightarrow>
            (\<forall>x \<in> set (port_values (sweep v W R st)).
               v_port_id x = Some (p_id q) \<longrightarrow> \<not> differs v (v_deleted_at x))
          \<and> (\<forall>e \<in> set (edges (sweep v W R st)).
               e_from_port_id e = Some (p_id q) \<or> e_to_port_id e = Some (p_id q)
               \<longrightarrow> \<not> differs v (e_deleted_at e)))"
proof (intro conjI ballI impI)
  fix r assume r: "r \<in> set (nodes (sweep v W R st))" "n_id r = c \<or> n_parent_id r = Some c"
  from r(2) show "\<not> differs v (n_deleted_at r)"
  proof
    assume "n_id r = c"
    with sweep_node_rows [OF c r(1)] show ?thesis by simp
  next
    assume "n_parent_id r = Some c"
    with sweep_child_rows [of c v st S r W] c r(1) show ?thesis
      by (simp add: R)
  qed
next
  fix p assume "p \<in> set (ports (sweep v W R st))" "p_node_id p = Some c"
  then show "\<not> differs v (p_deleted_at p)" by (rule sweep_port_rows [OF c])
next
  fix x assume "x \<in> set (tags (sweep v W R st))" "t_node_id x = c"
  then show "\<not> differs v (t_deleted_at x)" by (rule sweep_tag_rows [OF c])
next
  fix q x
  assume "q \<in> set (ports st)" "p_node_id q = Some c \<and> differs v (p_deleted_at q)"
    "x \<in> set (port_values (sweep v W R st))" "v_port_id x = Some (p_id q)"
  then show "\<not> differs v (v_deleted_at x)"
    using sweep_value_rows [OF c, of q st v x W] by blast
next
  fix q e
  assume "q \<in> set (ports st)" "p_node_id q = Some c \<and> differs v (p_deleted_at q)"
    "e \<in> set (edges (sweep v W R st))"
    "e_from_port_id e = Some (p_id q) \<or> e_to_port_id e = Some (p_id q)"
  then show "\<not> differs v (e_deleted_at e)"
    using sweep_edge_rows [OF c, of q st v e W] by blast
qed

text \<open>
  The definitions that evaluate a cascade on a given store.
\<close>

lemmas demo_defs = demo_def chain_nodes_def insert_node_row_def insert_port_row_def
  insert_port_value_row_def insert_edge_row_def insert_tag_row_def

lemmas trigger_defs = sql_update_def child_rows_def nodes_row_triggers_def ports_row_triggers_def
  update_ports_def
  cascade_soft_delete_nodes_on_nodes_delete_def cascade_restore_nodes_on_nodes_restore_def
  cascade_soft_delete_ports_on_nodes_delete_def cascade_restore_ports_on_nodes_restore_def
  cascade_soft_delete_tags_on_nodes_delete_def cascade_restore_tags_on_nodes_restore_def
  cascade_soft_delete_port_values_on_ports_delete_def cascade_restore_port_values_on_ports_restore_def
  cascade_soft_delete_edges_on_ports_delete_def cascade_restore_edges_on_ports_restore_def

lemmas eval_defs = SetAlive_def Let_def demo_defs trigger_defs

section \<open>What a cascade reaches\<close>

text \<open>
  C1. The store after \<open>SetAlive(N, target)\<close> is the sweep over the nodes the cascade
  reaches (\<open>N\<close> when its state differs from the target and, recursively, each child
  whose state differs): no other row is written. In it every reached node, every child,
  port and tag of such a node, and every value and incident edge of each of its ports
  whose state differed from the target, is in the target state.
\<close>

theorem SetAlive_propagates:
  "SetAlive st N target ts
   = sweep (target_value target ts) {N} (reached (target_value target ts) (nodes st) {N}) st
   \<and> (c \<in> reached (target_value target ts) (nodes st) {N} \<longrightarrow>
       (\<forall>r \<in> set (nodes (SetAlive st N target ts)).
            n_id r = c \<or> n_parent_id r = Some c \<longrightarrow> (n_deleted_at r = None) = target)
       \<and> (\<forall>p \<in> set (ports (SetAlive st N target ts)).
            p_node_id p = Some c \<longrightarrow> (p_deleted_at p = None) = target)
       \<and> (\<forall>t \<in> set (tags (SetAlive st N target ts)).
            t_node_id t = c \<longrightarrow> (t_deleted_at t = None) = target)
       \<and> (\<forall>q \<in> set (ports st). p_node_id q = Some c \<and> (p_deleted_at q = None) \<noteq> target \<longrightarrow>
            (\<forall>x \<in> set (port_values (SetAlive st N target ts)).
               v_port_id x = Some (p_id q) \<longrightarrow> (v_deleted_at x = None) = target)
          \<and> (\<forall>e \<in> set (edges (SetAlive st N target ts)).
               e_from_port_id e = Some (p_id q) \<or> e_to_port_id e = Some (p_id q)
               \<longrightarrow> (e_deleted_at e = None) = target)))"
  (is "?E \<and> (?A \<longrightarrow> ?B)")
proof (rule conjI)
  show ?E by (rule SetAlive_sweep)
next
  have t: "(d = None) = target \<longleftrightarrow> \<not> differs (target_value target ts) d" for d
    by simp
  show "?A \<longrightarrow> ?B"
  proof (rule impI)
    assume a: ?A
    show ?B
      unfolding SetAlive_sweep t not_not
      using a by (rule sweep_reached_rows) (rule refl)
  qed
qed

theorem SetAlive_propagates_witness:
  "''C'' \<in> reached (target_value False 7) (nodes demo) {''A''}
   \<and> list_all (\<lambda>r. n_id r = ''C'' \<or> n_parent_id r = Some ''C'' \<longrightarrow> (n_deleted_at r = None) = False)
        (nodes (SetAlive demo ''A'' False 7))
   \<and> list_all (\<lambda>p. p_node_id p = Some ''C'' \<longrightarrow> (p_deleted_at p = None) = False)
        (ports (SetAlive demo ''A'' False 7))
   \<and> list_all (\<lambda>t. t_node_id t = ''C'' \<longrightarrow> (t_deleted_at t = None) = False)
        (tags (SetAlive demo ''A'' False 7))
   \<and> map n_deleted_at (nodes (SetAlive demo ''A'' False 7)) = [Some 7, Some 7, Some 7, None]
   \<and> map p_deleted_at (ports (SetAlive demo ''A'' False 7)) = [Some 7, Some 7, Some 7, None]
   \<and> map v_deleted_at (port_values (SetAlive demo ''A'' False 7)) = [Some 7, Some 7]
   \<and> map e_deleted_at (edges (SetAlive demo ''A'' False 7)) = [Some 7, Some 7]
   \<and> map t_deleted_at (tags (SetAlive demo ''A'' False 7)) = [Some 7, Some 7, None]"
proof -
  have a: "''A'' \<in> reached (target_value False 7) (nodes demo) {''A''}"
    by (rule reached.start [of _ _ "insert_node_row ''A'' ''network'' None"])
       (simp_all add: demo_defs target_value_def)
  have b: "''B'' \<in> reached (target_value False 7) (nodes demo) {''A''}"
    using reached.child [OF a, of "insert_node_row ''B'' ''device'' (Some ''A'')"]
    by (simp add: demo_defs target_value_def)
  have c: "''C'' \<in> reached (target_value False 7) (nodes demo) {''A''}"
    using reached.child [OF b, of "insert_node_row ''C'' ''point'' (Some ''B'')"]
    by (simp add: demo_defs target_value_def)
  note p = SetAlive_propagates [where st = demo and N = "''A''" and target = False and ts = 7
      and c = "''C''", THEN conjunct2, THEN mp, OF c]
  have "list_all (\<lambda>r. n_id r = ''C'' \<or> n_parent_id r = Some ''C'' \<longrightarrow> (n_deleted_at r = None) = False)
        (nodes (SetAlive demo ''A'' False 7))"
    unfolding list_all_iff using p by (rule conjunct1)
  moreover have "list_all (\<lambda>p. p_node_id p = Some ''C'' \<longrightarrow> (p_deleted_at p = None) = False)
        (ports (SetAlive demo ''A'' False 7))"
    unfolding list_all_iff using p by (rule conjunct1 [OF conjunct2])
  moreover have "list_all (\<lambda>t. t_node_id t = ''C'' \<longrightarrow> (t_deleted_at t = None) = False)
        (tags (SetAlive demo ''A'' False 7))"
    unfolding list_all_iff using p by (rule conjunct1 [OF conjunct2 [OF conjunct2]])
  moreover have "map n_deleted_at (nodes (SetAlive demo ''A'' False 7)) = [Some 7, Some 7, Some 7, None]"
    "map p_deleted_at (ports (SetAlive demo ''A'' False 7)) = [Some 7, Some 7, Some 7, None]"
    "map v_deleted_at (port_values (SetAlive demo ''A'' False 7)) = [Some 7, Some 7]"
    "map e_deleted_at (edges (SetAlive demo ''A'' False 7)) = [Some 7, Some 7]"
    "map t_deleted_at (tags (SetAlive demo ''A'' False 7)) = [Some 7, Some 7, None]"
    by (simp_all add: eval_defs)
  ultimately show ?thesis using c by blast
qed

text \<open>
  A child that is already in the target state is not entered. In \<open>alive_under_dead\<close>
  node B is soft-deleted and its child C is alive; \<open>SetAlive(A, false)\<close> marks A, skips B
  and leaves C and its ports alive.
\<close>

theorem SetAlive_skips_below_dead_node:
  "map n_id (nodes alive_under_dead) = [''A'', ''B'', ''C'', ''X'']
   \<and> map n_parent_id (nodes alive_under_dead) = [None, Some ''A'', Some ''B'', None]
   \<and> map n_deleted_at (nodes alive_under_dead) = [None, Some 5, None, None]
   \<and> map n_deleted_at (nodes (SetAlive alive_under_dead ''A'' False 7))
       = [Some 7, Some 5, None, None]
   \<and> map p_deleted_at (ports (SetAlive alive_under_dead ''A'' False 7))
       = [Some 5, None, None, None]"
  by (simp add: alive_under_dead_def eval_defs)

section \<open>Soft delete followed by restore\<close>

lemma delete_then_restore_alive_subtree:
  assumes H: "subtree_alive st N"
  shows "SetAlive (SetAlive st N False ts) N True ts' = st"
proof -
  define T where "T = subtree (nodes st) N"
  have Hn: "n_deleted_at r = None" if "r \<in> set (nodes st)" "n_id r \<in> T" for r
    using H that by (simp add: subtree_alive_def T_def)
  have Hp: "p_deleted_at p = None" if "p \<in> set (ports st)" "p_node_id p \<in> Some ` T" for p
    using H that by (simp add: subtree_alive_def T_def)
  have Hv: "v_deleted_at x = None"
    if "p \<in> set (ports st)" "p_node_id p \<in> Some ` T" "x \<in> set (port_values st)"
      "v_port_id x = Some (p_id p)" for p x
    using H that unfolding subtree_alive_def T_def by blast
  have He: "e_deleted_at e = None"
    if "p \<in> set (ports st)" "p_node_id p \<in> Some ` T" "e \<in> set (edges st)"
      "e_from_port_id e = Some (p_id p) \<or> e_to_port_id e = Some (p_id p)" for p e
    using H that unfolding subtree_alive_def T_def by blast
  have Ht: "t_deleted_at t = None" if "t \<in> set (tags st)" "t_node_id t \<in> T" for t
    using H that by (simp add: subtree_alive_def T_def)
  have NT: "n_id r \<in> T" if "r \<in> set (nodes st)" "n_id r \<in> {N} \<union> T" for r
    using that subtree.root [of r "nodes st" N] by (auto simp: T_def)

  have R1: "reached (Some ts) (nodes st) {N} = T"
  proof (intro set_eqI iffI)
    fix x assume "x \<in> reached (Some ts) (nodes st) {N}"
    then show "x \<in> T" unfolding T_def by (rule reached_subtree)
  next
    fix x assume "x \<in> T"
    then show "x \<in> reached (Some ts) (nodes st) {N}"
      unfolding T_def using Hn by (intro subtree_reached) (simp_all add: T_def)
  qed
  define st1 where "st1 = SetAlive st N False ts"
  have st1: "st1 = sweep (Some ts) {N} T st"
    by (simp add: st1_def SetAlive_sweep target_value_def R1)
  have n1: "nodes st1 = sql_update (\<lambda>r. n_id r \<in> {N} \<union> T) (\<lambda>r. r\<lparr>n_deleted_at := Some ts\<rparr>) (nodes st)"
    by (simp add: st1 nodes_sweep)
  have T1: "subtree (nodes st1) N = T"
    unfolding n1 subtree_sql_update T_def ..
  have R2: "reached None (nodes st1) {N} = T"
  proof (intro set_eqI iffI)
    fix x assume "x \<in> reached None (nodes st1) {N}"
    then have "x \<in> subtree (nodes st1) N" by (rule reached_subtree)
    then show "x \<in> T" by (simp add: T1)
  next
    fix x assume "x \<in> T"
    then have x: "x \<in> subtree (nodes st1) N" by (simp add: T1)
    show "x \<in> reached None (nodes st1) {N}"
    proof (rule subtree_reached [OF x])
      fix r assume r: "r \<in> set (nodes st1)" "n_id r \<in> subtree (nodes st1) N"
      from r(1) consider "r \<in> set (nodes st)" "n_id r \<notin> {N} \<union> T"
        | r0 where "r = r0\<lparr>n_deleted_at := Some ts\<rparr>"
        unfolding n1 by (blast dest: in_sql_updateD)
      then show "differs None (n_deleted_at r)"
      proof cases
        case 1
        with r(2) show ?thesis by (simp add: T1)
      next
        case 2
        then show ?thesis by simp
      qed
    qed
  qed
  have fin: "SetAlive st1 N True ts' = sweep None {N} T st1"
    by (simp add: SetAlive_sweep target_value_def R2)

  have nodes: "nodes (sweep None {N} T st1) = nodes st"
    unfolding nodes_sweep n1
  proof (rule sql_update_roundtrip)
    fix r assume "r \<in> set (nodes st)" "n_id r \<in> {N} \<union> T"
    then have "n_deleted_at r = None" using NT Hn by blast
    then show "n_id (r\<lparr>n_deleted_at := Some ts\<rparr>) \<in> {N} \<union> T
        \<and> r\<lparr>n_deleted_at := Some ts\<rparr>\<lparr>n_deleted_at := None\<rparr> = r"
      using \<open>n_id r \<in> {N} \<union> T\<close> by simp
  qed simp

  have p1: "ports st1 = sql_update (\<lambda>p. p_node_id p \<in> Some ` T \<and> differs (Some ts) (p_deleted_at p))
              (\<lambda>p. p\<lparr>p_deleted_at := Some ts\<rparr>) (ports st)"
    by (simp add: st1 ports_sweep)
  have ports: "ports (sweep None {N} T st1) = ports st"
    unfolding ports_sweep p1
  proof (rule sql_update_roundtrip)
    fix p assume "p \<in> set (ports st)" "p_node_id p \<in> Some ` T \<and> differs (Some ts) (p_deleted_at p)"
    then show "(p_node_id (p\<lparr>p_deleted_at := Some ts\<rparr>) \<in> Some ` T
          \<and> differs None (p_deleted_at (p\<lparr>p_deleted_at := Some ts\<rparr>)))
        \<and> p\<lparr>p_deleted_at := Some ts\<rparr>\<lparr>p_deleted_at := None\<rparr> = p"
      by simp
  next
    fix p assume "p \<in> set (ports st)" "\<not> (p_node_id p \<in> Some ` T \<and> differs (Some ts) (p_deleted_at p))"
    then show "\<not> (p_node_id p \<in> Some ` T \<and> differs None (p_deleted_at p))"
      using Hp [of p] by auto
  qed

  have t1: "tags st1 = sql_update (\<lambda>t. t_node_id t \<in> T \<and> differs (Some ts) (t_deleted_at t))
              (\<lambda>t. t\<lparr>t_deleted_at := Some ts\<rparr>) (tags st)"
    by (simp add: st1 tags_sweep)
  have tags: "tags (sweep None {N} T st1) = tags st"
    unfolding tags_sweep t1
  proof (rule sql_update_roundtrip)
    fix t assume "t \<in> set (tags st)" "t_node_id t \<in> T \<and> differs (Some ts) (t_deleted_at t)"
    then show "(t_node_id (t\<lparr>t_deleted_at := Some ts\<rparr>) \<in> T
          \<and> differs None (t_deleted_at (t\<lparr>t_deleted_at := Some ts\<rparr>)))
        \<and> t\<lparr>t_deleted_at := Some ts\<rparr>\<lparr>t_deleted_at := None\<rparr> = t"
      by simp
  next
    fix t assume "t \<in> set (tags st)" "\<not> (t_node_id t \<in> T \<and> differs (Some ts) (t_deleted_at t))"
    then show "\<not> (t_node_id t \<in> T \<and> differs None (t_deleted_at t))"
      using Ht [of t] by auto
  qed

  define P where "P = p_id ` {p \<in> set (ports st). p_node_id p \<in> Some ` T}"
  have P1: "owned_ports (Some ts) (ports st) T = P"
    unfolding owned_ports_def P_def using Hp by auto
  have P2: "owned_ports None (ports st1) T = P"
  proof -
    have "{p \<in> set (ports st1). p_node_id p \<in> Some ` T \<and> differs None (p_deleted_at p)}
        = (\<lambda>p. p\<lparr>p_deleted_at := Some ts\<rparr>) ` {p \<in> set (ports st). p_node_id p \<in> Some ` T}"
      (is "?L = ?R")
    proof (intro set_eqI iffI)
      fix p assume "p \<in> ?L"
      then have p: "p \<in> set (ports st1)" "p_node_id p \<in> Some ` T" "p_deleted_at p \<noteq> None"
        by simp_all
      from p(1) consider "p \<in> set (ports st)"
        | p0 where "p0 \<in> set (ports st)" "p_node_id p0 \<in> Some ` T" "p = p0\<lparr>p_deleted_at := Some ts\<rparr>"
        unfolding p1 by (blast dest: in_sql_updateD)
      then show "p \<in> ?R"
      proof cases
        case 1
        with p Hp [of p] show ?thesis by simp
      next
        case 2
        then show ?thesis by blast
      qed
    next
      fix p assume "p \<in> ?R"
      then obtain p0 where p0: "p0 \<in> set (ports st)" "p_node_id p0 \<in> Some ` T"
        "p = p0\<lparr>p_deleted_at := Some ts\<rparr>" by blast
      then have "p_deleted_at p0 = None" using Hp by blast
      with p0 have "p \<in> set (ports st1)"
        unfolding p1 by (auto simp: in_sql_update)
      with p0 show "p \<in> ?L" by simp
    qed
    then show ?thesis
      unfolding owned_ports_def P_def by (simp add: image_image)
  qed
  have Pv: "v_deleted_at x = None" if "x \<in> set (port_values st)" "v_port_id x \<in> Some ` P" for x
    using that Hv unfolding P_def by blast
  have Pe: "e_deleted_at e = None"
    if "e \<in> set (edges st)" "e_from_port_id e \<in> Some ` P \<or> e_to_port_id e \<in> Some ` P" for e
    using that He unfolding P_def by blast

  have v1: "port_values st1 = sql_update (\<lambda>x. v_port_id x \<in> Some ` P \<and> differs (Some ts) (v_deleted_at x))
              (\<lambda>x. x\<lparr>v_deleted_at := Some ts\<rparr>) (port_values st)"
    by (simp add: st1 port_values_sweep P1)
  have port_values: "port_values (sweep None {N} T st1) = port_values st"
    unfolding port_values_sweep P2 v1
  proof (rule sql_update_roundtrip)
    fix x assume "x \<in> set (port_values st)" "v_port_id x \<in> Some ` P \<and> differs (Some ts) (v_deleted_at x)"
    then show "(v_port_id (x\<lparr>v_deleted_at := Some ts\<rparr>) \<in> Some ` P
          \<and> differs None (v_deleted_at (x\<lparr>v_deleted_at := Some ts\<rparr>)))
        \<and> x\<lparr>v_deleted_at := Some ts\<rparr>\<lparr>v_deleted_at := None\<rparr> = x"
      by simp
  next
    fix x assume "x \<in> set (port_values st)" "\<not> (v_port_id x \<in> Some ` P \<and> differs (Some ts) (v_deleted_at x))"
    then show "\<not> (v_port_id x \<in> Some ` P \<and> differs None (v_deleted_at x))"
      using Pv [of x] by auto
  qed

  have e1: "edges st1 = sql_update (\<lambda>e. (e_from_port_id e \<in> Some ` P \<or> e_to_port_id e \<in> Some ` P)
                                        \<and> differs (Some ts) (e_deleted_at e))
              (\<lambda>e. e\<lparr>e_deleted_at := Some ts\<rparr>) (edges st)"
    by (simp add: st1 edges_sweep P1)
  have edges: "edges (sweep None {N} T st1) = edges st"
    unfolding edges_sweep P2 e1
  proof (rule sql_update_roundtrip)
    fix e assume "e \<in> set (edges st)"
      "(e_from_port_id e \<in> Some ` P \<or> e_to_port_id e \<in> Some ` P) \<and> differs (Some ts) (e_deleted_at e)"
    then show "((e_from_port_id (e\<lparr>e_deleted_at := Some ts\<rparr>) \<in> Some ` P
            \<or> e_to_port_id (e\<lparr>e_deleted_at := Some ts\<rparr>) \<in> Some ` P)
          \<and> differs None (e_deleted_at (e\<lparr>e_deleted_at := Some ts\<rparr>)))
        \<and> e\<lparr>e_deleted_at := Some ts\<rparr>\<lparr>e_deleted_at := None\<rparr> = e"
      by simp
  next
    fix e assume "e \<in> set (edges st)"
      "\<not> ((e_from_port_id e \<in> Some ` P \<or> e_to_port_id e \<in> Some ` P) \<and> differs (Some ts) (e_deleted_at e))"
    then show "\<not> ((e_from_port_id e \<in> Some ` P \<or> e_to_port_id e \<in> Some ` P) \<and> differs None (e_deleted_at e))"
      using Pe [of e] by auto
  qed

  have "sweep None {N} T st1 = st"
    using nodes ports port_values edges tags by (intro store.equality) simp_all
  then show ?thesis
    by (simp add: fin st1_def [symmetric])
qed

text \<open>
  C2. When the subtree of \<open>N\<close> is entirely alive, \<open>SetAlive(N, false)\<close> followed by
  \<open>SetAlive(N, true)\<close> gives back the store as it was. In general a restore revives what
  it reaches through rows that are soft-deleted at restore time: every such node \<open>c\<close>,
  its children, ports and tags, and the values and incident edges of its soft-deleted
  ports, whenever and why ever they were deleted.
\<close>

theorem delete_then_restore:
  "(subtree_alive st N \<longrightarrow> SetAlive (SetAlive st N False ts) N True ts' = st)
   \<and> (c \<in> reached None (nodes s) {N} \<longrightarrow>
        (\<forall>r \<in> set (nodes (SetAlive s N True ts')).
            n_id r = c \<or> n_parent_id r = Some c \<longrightarrow> n_deleted_at r = None)
      \<and> (\<forall>p \<in> set (ports (SetAlive s N True ts')).
            p_node_id p = Some c \<longrightarrow> p_deleted_at p = None)
      \<and> (\<forall>t \<in> set (tags (SetAlive s N True ts')).
            t_node_id t = c \<longrightarrow> t_deleted_at t = None)
      \<and> (\<forall>q \<in> set (ports s). p_node_id q = Some c \<and> p_deleted_at q \<noteq> None \<longrightarrow>
            (\<forall>x \<in> set (port_values (SetAlive s N True ts')).
               v_port_id x = Some (p_id q) \<longrightarrow> v_deleted_at x = None)
          \<and> (\<forall>e \<in> set (edges (SetAlive s N True ts')).
               e_from_port_id e = Some (p_id q) \<or> e_to_port_id e = Some (p_id q)
               \<longrightarrow> e_deleted_at e = None)))"
proof (rule conjI; rule impI)
  assume "subtree_alive st N"
  then show "SetAlive (SetAlive st N False ts) N True ts' = st"
    by (rule delete_then_restore_alive_subtree)
next
  assume c: "c \<in> reached None (nodes s) {N}"
  have sw: "SetAlive s N True ts' = sweep None {N} (reached None (nodes s) {N}) s"
    by (simp add: SetAlive_sweep target_value_def)
  show "(\<forall>r \<in> set (nodes (SetAlive s N True ts')).
            n_id r = c \<or> n_parent_id r = Some c \<longrightarrow> n_deleted_at r = None)
      \<and> (\<forall>p \<in> set (ports (SetAlive s N True ts')).
            p_node_id p = Some c \<longrightarrow> p_deleted_at p = None)
      \<and> (\<forall>t \<in> set (tags (SetAlive s N True ts')).
            t_node_id t = c \<longrightarrow> t_deleted_at t = None)
      \<and> (\<forall>q \<in> set (ports s). p_node_id q = Some c \<and> p_deleted_at q \<noteq> None \<longrightarrow>
            (\<forall>x \<in> set (port_values (SetAlive s N True ts')).
               v_port_id x = Some (p_id q) \<longrightarrow> v_deleted_at x = None)
          \<and> (\<forall>e \<in> set (edges (SetAlive s N True ts')).
               e_from_port_id e = Some (p_id q) \<or> e_to_port_id e = Some (p_id q)
               \<longrightarrow> e_deleted_at e = None))"
    unfolding sw
    using sweep_reached_rows [OF c refl, of "{N}"]
    by (simp only: differs_None not_not)
qed

theorem delete_then_restore_witness:
  "subtree_alive demo ''B''
   \<and> SetAlive (SetAlive demo ''B'' False 7) ''B'' True 0 = demo
   \<and> map n_deleted_at (nodes (SetAlive (SetAlive demo ''B'' False 5) ''A'' False 7))
       = [Some 7, Some 5, Some 5, None]
   \<and> ''C'' \<in> reached None (nodes (SetAlive (SetAlive demo ''B'' False 5) ''A'' False 7)) {''A''}
   \<and> list_all (\<lambda>r. n_id r = ''C'' \<or> n_parent_id r = Some ''C'' \<longrightarrow> n_deleted_at r = None)
        (nodes (SetAlive (SetAlive (SetAlive demo ''B'' False 5) ''A'' False 7) ''A'' True 0))
   \<and> map n_deleted_at
        (nodes (SetAlive (SetAlive (SetAlive demo ''B'' False 5) ''A'' False 7) ''A'' True 0))
       = [None, None, None, None]"
proof -
  define s where "s = SetAlive (SetAlive demo ''B'' False 5) ''A'' False 7"
  have alive: "subtree_alive demo ''B''"
    by (simp add: subtree_alive_def demo_defs)
  have n: "nodes s = [(insert_node_row ''A'' ''network'' None)\<lparr>n_deleted_at := Some 7\<rparr>,
                     (insert_node_row ''B'' ''device'' (Some ''A''))\<lparr>n_deleted_at := Some 5\<rparr>,
                     (insert_node_row ''C'' ''point'' (Some ''B''))\<lparr>n_deleted_at := Some 5\<rparr>,
                     insert_node_row ''X'' ''network'' None]"
    by (simp add: s_def eval_defs)
  have a: "''A'' \<in> reached None (nodes s) {''A''}"
    by (rule reached.start [of _ _ "(insert_node_row ''A'' ''network'' None)\<lparr>n_deleted_at := Some 7\<rparr>"])
       (simp_all add: n insert_node_row_def)
  have b: "''B'' \<in> reached None (nodes s) {''A''}"
    using reached.child [OF a, of "(insert_node_row ''B'' ''device'' (Some ''A''))\<lparr>n_deleted_at := Some 5\<rparr>"]
    by (simp add: n insert_node_row_def)
  have c: "''C'' \<in> reached None (nodes s) {''A''}"
    using reached.child [OF b, of "(insert_node_row ''C'' ''point'' (Some ''B''))\<lparr>n_deleted_at := Some 5\<rparr>"]
    by (simp add: n insert_node_row_def)
  from delete_then_restore [of demo "''B''" 7 0] alive
  have rt: "SetAlive (SetAlive demo ''B'' False 7) ''B'' True 0 = demo"
    by blast
  from delete_then_restore [of _ "''A''" _ 0 "''C''" s] c
  have "\<forall>r \<in> set (nodes (SetAlive s ''A'' True 0)).
            n_id r = ''C'' \<or> n_parent_id r = Some ''C'' \<longrightarrow> n_deleted_at r = None"
    by blast
  then have la: "list_all (\<lambda>r. n_id r = ''C'' \<or> n_parent_id r = Some ''C'' \<longrightarrow> n_deleted_at r = None)
        (nodes (SetAlive s ''A'' True 0))"
    by (simp only: list_all_iff)
  have m1: "map n_deleted_at (nodes s) = [Some 7, Some 5, Some 5, None]"
    by (simp add: n insert_node_row_def)
  have m2: "map n_deleted_at (nodes (SetAlive s ''A'' True 0)) = [None, None, None, None]"
    by (simp add: s_def eval_defs)
  from alive rt m1 c la m2 show ?thesis
    unfolding s_def by blast
qed

text \<open>
  A soft-deleted row below an alive node is not reached. In \<open>dead_below_alive\<close> node D
  is soft-deleted below the alive node C; after \<open>SetAlive(A, false)\<close> and
  \<open>SetAlive(A, true)\<close> node B is revived and D is still soft-deleted.
\<close>

theorem restore_skips_below_alive_node:
  "map n_parent_id (nodes dead_below_alive) = [None, Some ''A'', Some ''B'', Some ''C'']
   \<and> map n_deleted_at (nodes dead_below_alive) = [None, Some 1, None, Some 2]
   \<and> map n_deleted_at (nodes (SetAlive dead_below_alive ''A'' False 3))
       = [Some 3, Some 1, None, Some 2]
   \<and> map n_deleted_at (nodes (SetAlive (SetAlive dead_below_alive ''A'' False 3) ''A'' True 0))
       = [None, None, None, Some 2]"
  by (simp add: dead_below_alive_def deep_chain_def eval_defs)

section \<open>The tag search and soft delete\<close>

lemma group_keys:
  "set (map t_tag_key (filter (\<lambda>t. t_node_id t = g) (matching_tags [(k1, v1), (k2, v2)] tbl)))
   = (if \<exists>t \<in> set tbl. t_node_id t = g \<and> t_tag_key t = k1 \<and> t_tag_value t = v1 then {k1} else {})
     \<union> (if \<exists>t \<in> set tbl. t_node_id t = g \<and> t_tag_key t = k2 \<and> t_tag_value t = v2 then {k2} else {})"
  by (auto simp: matching_tags_def)

lemma card_two_keys:
  assumes "k1 \<noteq> k2"
  shows "card ((if a then {k1} else {}) \<union> (if b then {k2} else {})) = 2 \<longleftrightarrow> a \<and> b"
  using assms by (cases a; cases b) simp_all

text \<open>
  C3. For two required pairs with different keys the search returns, once each, exactly
  the node ids that have a tag row for the first pair and a tag row for the second. The
  rows count whether or not they are soft-deleted: the query does not read
  \<open>deleted_at\<close>.
\<close>

theorem multi_tag_search_two:
  assumes "k1 \<noteq> k2"
  shows "set (multi_tag_search [(k1, v1), (k2, v2)] tbl)
         = {g. (\<exists>t \<in> set tbl. t_node_id t = g \<and> t_tag_key t = k1 \<and> t_tag_value t = v1)
             \<and> (\<exists>t \<in> set tbl. t_node_id t = g \<and> t_tag_key t = k2 \<and> t_tag_value t = v2)}
         \<and> distinct (multi_tag_search [(k1, v1), (k2, v2)] tbl)"
proof -
  define m where "m = matching_tags [(k1, v1), (k2, v2)] tbl"
  define A where "A g \<longleftrightarrow> (\<exists>t \<in> set tbl. t_node_id t = g \<and> t_tag_key t = k1 \<and> t_tag_value t = v1)" for g
  define B where "B g \<longleftrightarrow> (\<exists>t \<in> set tbl. t_node_id t = g \<and> t_tag_key t = k2 \<and> t_tag_value t = v2)" for g
  have count: "length (remdups (map t_tag_key (filter (\<lambda>t. t_node_id t = g) m)))
                 = length [(k1, v1), (k2, v2)] \<longleftrightarrow> A g \<and> B g" for g
  proof -
    have "length (remdups (map t_tag_key (filter (\<lambda>t. t_node_id t = g) m)))
        = card (set (map t_tag_key (filter (\<lambda>t. t_node_id t = g) m)))"
      by (rule length_remdups_card_conv)
    also have "\<dots> = card ((if A g then {k1} else {}) \<union> (if B g then {k2} else {}))"
      unfolding m_def group_keys A_def B_def ..
    finally have e: "length (remdups (map t_tag_key (filter (\<lambda>t. t_node_id t = g) m)))
        = card ((if A g then {k1} else {}) \<union> (if B g then {k2} else {}))" .
    have l: "length [(k1, v1), (k2, v2)] = 2" by simp
    show ?thesis unfolding e l by (rule card_two_keys [OF assms])
  qed
  have groups: "set (map t_node_id m) = {g. A g \<or> B g}"
    unfolding m_def A_def B_def by (auto simp: matching_tags_def)
  have "multi_tag_search [(k1, v1), (k2, v2)] tbl
      = filter (\<lambda>g. A g \<and> B g) (remdups (map t_node_id m))"
    unfolding multi_tag_search_def Let_def m_def [symmetric] count ..
  then have "set (multi_tag_search [(k1, v1), (k2, v2)] tbl) = {g. A g \<and> B g}"
    and "distinct (multi_tag_search [(k1, v1), (k2, v2)] tbl)"
    using groups by auto
  then show ?thesis unfolding A_def B_def by simp
qed

theorem multi_tag_search_two_witness:
  "''category'' \<noteq> ''priority''
   \<and> set (multi_tag_search [(''category'', ''medium''), (''priority'', ''high'')] (tags demo)) = {''C''}"
proof -
  have ne: "''category'' \<noteq> ''priority''" by simp
  have "{g. (\<exists>t \<in> set (tags demo). t_node_id t = g \<and> t_tag_key t = ''category'' \<and> t_tag_value t = ''medium'')
             \<and> (\<exists>t \<in> set (tags demo). t_node_id t = g \<and> t_tag_key t = ''priority'' \<and> t_tag_value t = ''high'')}
        = {''C''}"
    by (auto simp: demo_defs)
  with multi_tag_search_two [OF ne, of "''medium''" "''high''" "tags demo"] ne
  show ?thesis by simp
qed

text \<open>
  After \<open>SetAlive(A, false)\<close> both tags of C are soft-deleted, and the search still
  returns C; the single-tag filter returns the soft-deleted node C as well.
\<close>

theorem multi_tag_search_counts_deleted_tags:
  "map t_deleted_at (tags (SetAlive demo ''A'' False 7)) = [Some 7, Some 7, None]
   \<and> map t_node_id (tags (SetAlive demo ''A'' False 7)) = [''C'', ''C'', ''X'']
   \<and> multi_tag_search [(''category'', ''medium''), (''priority'', ''high'')]
        (tags (SetAlive demo ''A'' False 7)) = [''C'']
   \<and> map n_id (tag_filter ''category'' ''medium'' (SetAlive demo ''A'' False 7)) = [''C'', ''X'']"
  by (simp add: eval_defs multi_tag_search_def matching_tags_def tag_filter_def)

section \<open>The hierarchy query and soft delete\<close>

lemma select_map:
  assumes "\<And>r. f (u r) = f r" "\<And>r. Q (u r) = Q r"
  shows "map f (filter Q (map u tbl)) = map f (filter Q tbl)"
  by (induction tbl) (simp_all add: assms)

lemma base_term_deleted_at:
  "base_term rt (map (\<lambda>r. r\<lparr>n_deleted_at := f r\<rparr>) tbl) = base_term rt tbl"
  unfolding base_term_def by (rule select_map) simp_all

lemma join_row_deleted_at:
  "join_row q D (map (\<lambda>r. r\<lparr>n_deleted_at := f r\<rparr>) tbl) = join_row q D tbl"
proof
  fix nh :: hrow
  have "map (\<lambda>n. \<lparr>h_id = n_id n, h_name = n_name n, h_type = n_type n,
                   h_description = n_description n, h_level = h_level nh + 1\<rparr>)
          (filter (\<lambda>n. n_parent_id n = Some (h_id nh)) (map (\<lambda>r. r\<lparr>n_deleted_at := f r\<rparr>) tbl))
      = map (\<lambda>n. \<lparr>h_id = n_id n, h_name = n_name n, h_type = n_type n,
                   h_description = n_description n, h_level = h_level nh + 1\<rparr>)
          (filter (\<lambda>n. n_parent_id n = Some (h_id nh)) tbl)"
    by (rule select_map) simp_all
  then show "join_row q D (map (\<lambda>r. r\<lparr>n_deleted_at := f r\<rparr>) tbl) nh = join_row q D tbl nh"
    by (simp only: join_row_def)
qed

lemma recursive_term_deleted_at:
  "recursive_term q D (map (\<lambda>r. r\<lparr>n_deleted_at := f r\<rparr>) tbl) wt = recursive_term q D tbl wt"
  by (simp only: recursive_term_def join_row_deleted_at)

lemma iterate_cte_deleted_at:
  "iterate_cte q D (map (\<lambda>r. r\<lparr>n_deleted_at := f r\<rparr>) tbl) wt = iterate_cte q D tbl wt"
proof (induction q D tbl wt rule: iterate_cte.induct)
  case (1 q D tbl wt)
  show ?case
  proof (cases "wt = []")
    case True
    then show ?thesis by (simp add: iterate_cte.simps)
  next
    case False
    then show ?thesis
      using 1 by (subst (1 2) iterate_cte.simps) (simp add: recursive_term_deleted_at)
  qed
qed

lemma sql_update_deleted_at:
  "sql_update P (\<lambda>r. r\<lparr>n_deleted_at := v\<rparr>) tbl
   = map (\<lambda>r. r\<lparr>n_deleted_at := (if P r then v else n_deleted_at r)\<rparr>) tbl"
  by (simp add: sql_update_def)

lemma nodes_hierarchy_deleted_at:
  "nodes_hierarchy q D rt (map (\<lambda>r. r\<lparr>n_deleted_at := f r\<rparr>) tbl) = nodes_hierarchy q D rt tbl"
  by (simp add: nodes_hierarchy_def base_term_deleted_at iterate_cte_deleted_at)

lemma mset_base_term:
  "mset tbl1 = mset tbl2 \<Longrightarrow> mset (base_term rt tbl1) = mset (base_term rt tbl2)"
  by (simp add: base_term_def)

lemma mset_join_row:
  "mset tbl1 = mset tbl2 \<Longrightarrow> mset (join_row q D tbl1 nh) = mset (join_row q D tbl2 nh)"
  by (simp add: join_row_def)

lemma mset_recursive_term:
  "mset (recursive_term q D tbl wt) = (\<Sum>nh \<in># mset wt. mset (join_row q D tbl nh))"
  by (induction wt) (simp_all add: recursive_term_def)

lemma mset_recursive_term_cong:
  assumes "mset tbl1 = mset tbl2" "mset wt1 = mset wt2"
  shows "mset (recursive_term q D tbl1 wt1) = mset (recursive_term q D tbl2 wt2)"
  by (simp add: mset_recursive_term assms(2) mset_join_row [OF assms(1)])

lemma mset_iterate_cte:
  "mset tbl1 = mset tbl2 \<Longrightarrow> mset wt1 = mset wt2
   \<Longrightarrow> mset (iterate_cte q D tbl1 wt1) = mset (iterate_cte q D tbl2 wt2)"
proof (induction q D tbl1 wt1 arbitrary: wt2 rule: iterate_cte.induct)
  case (1 q D tbl wt)
  show ?case
  proof (cases "wt = []")
    case True
    with 1(3) have "wt2 = []" by simp
    with True show ?thesis by (simp add: iterate_cte.simps)
  next
    case False
    with 1(3) have ne: "wt2 \<noteq> []" by auto
    have r: "mset (recursive_term q D tbl wt) = mset (recursive_term q D tbl2 wt2)"
      using 1(2,3) by (rule mset_recursive_term_cong)
    have "mset (iterate_cte q D tbl (recursive_term q D tbl wt))
        = mset (iterate_cte q D tbl2 (recursive_term q D tbl2 wt2))"
      using False 1(2) r by (rule 1(1))
    then show ?thesis
      using False ne 1(3)
      by (subst iterate_cte.simps, subst (2) iterate_cte.simps) simp
  qed
qed

lemma mset_nodes_hierarchy:
  "mset tbl1 = mset tbl2
   \<Longrightarrow> mset (nodes_hierarchy q D rt tbl1) = mset (nodes_hierarchy q D rt tbl2)"
  unfolding nodes_hierarchy_def by (intro mset_iterate_cte mset_base_term)

text \<open>
  C4. The hierarchy query never reads \<open>deleted_at\<close>, and the rows it returns do not
  depend on the order in which the table is read: two nodes tables that hold the same
  rows up to the \<open>deleted_at\<close> column and up to order give the same multiset of result
  rows, and so does the table after any \<open>SetAlive\<close>, in whatever order its rows are read.
  Soft-deleted rows are returned like alive ones. In the example the soft-deleted device
  moves behind its alive sibling in the result and the rows returned are the same.
\<close>

theorem nodes_hierarchy_ignores_deleted_at:
  "(image_mset (\<lambda>r. r\<lparr>n_deleted_at := None\<rparr>) (mset tbl')
      = image_mset (\<lambda>r. r\<lparr>n_deleted_at := None\<rparr>) (mset tbl)
    \<longrightarrow> mset (nodes_hierarchy q D rt tbl') = mset (nodes_hierarchy q D rt tbl))
   \<and> (mset tbl' = mset (nodes (SetAlive st N target ts))
    \<longrightarrow> mset (nodes_hierarchy q D rt tbl') = mset (nodes_hierarchy q D rt (nodes st)))"
proof (rule conjI; rule impI)
  assume "image_mset (\<lambda>r. r\<lparr>n_deleted_at := None\<rparr>) (mset tbl')
      = image_mset (\<lambda>r. r\<lparr>n_deleted_at := None\<rparr>) (mset tbl)"
  then have "mset (map (\<lambda>r. r\<lparr>n_deleted_at := None\<rparr>) tbl')
      = mset (map (\<lambda>r. r\<lparr>n_deleted_at := None\<rparr>) tbl)"
    by simp
  then have "mset (nodes_hierarchy q D rt (map (\<lambda>r. r\<lparr>n_deleted_at := None\<rparr>) tbl'))
      = mset (nodes_hierarchy q D rt (map (\<lambda>r. r\<lparr>n_deleted_at := None\<rparr>) tbl))"
    by (rule mset_nodes_hierarchy)
  then show "mset (nodes_hierarchy q D rt tbl') = mset (nodes_hierarchy q D rt tbl)"
    by (simp only: nodes_hierarchy_deleted_at)
next
  assume "mset tbl' = mset (nodes (SetAlive st N target ts))"
  then have "mset (nodes_hierarchy q D rt tbl')
      = mset (nodes_hierarchy q D rt (nodes (SetAlive st N target ts)))"
    by (rule mset_nodes_hierarchy)
  also have "nodes_hierarchy q D rt (nodes (SetAlive st N target ts))
      = nodes_hierarchy q D rt (nodes st)"
    by (simp add: SetAlive_sweep nodes_sweep sql_update_deleted_at nodes_hierarchy_deleted_at)
  finally show "mset (nodes_hierarchy q D rt tbl') = mset (nodes_hierarchy q D rt (nodes st))" .
qed

theorem nodes_hierarchy_ignores_deleted_at_witness:
  "mset two_devices_by_index = mset (nodes (SetAlive two_devices ''B'' False 7))
   \<and> mset (nodes_hierarchy Edge_Device 3 ''A'' two_devices_by_index)
       = mset (nodes_hierarchy Edge_Device 3 ''A'' (nodes two_devices))
   \<and> mset (nodes_hierarchy Central_Server 3 ''A''
              (rev (map (\<lambda>r. r\<lparr>n_deleted_at := Some 1\<rparr>) (nodes two_devices))))
       = mset (nodes_hierarchy Central_Server 3 ''A'' (nodes two_devices))
   \<and> map h_id (nodes_hierarchy Edge_Device 3 ''A'' (nodes two_devices)) = [''A'', ''B'', ''C'']
   \<and> map h_id (nodes_hierarchy Edge_Device 3 ''A'' two_devices_by_index) = [''A'', ''C'', ''B'']"
proof -
  have p: "mset two_devices_by_index = mset (nodes (SetAlive two_devices ''B'' False 7))"
    by (simp add: two_devices_by_index_def two_devices_def eval_defs)
  have e: "image_mset (\<lambda>r. r\<lparr>n_deleted_at := None\<rparr>)
        (mset (rev (map (\<lambda>r. r\<lparr>n_deleted_at := Some 1\<rparr>) (nodes two_devices))))
      = image_mset (\<lambda>r. r\<lparr>n_deleted_at := None\<rparr>) (mset (nodes two_devices))"
    by (simp add: two_devices_def insert_node_row_def)
  note a = nodes_hierarchy_ignores_deleted_at [where tbl' = two_devices_by_index
      and st = two_devices and N = "''B''" and target = False and ts = 7,
      THEN conjunct2, THEN mp, OF p]
  note b = nodes_hierarchy_ignores_deleted_at [THEN conjunct1, THEN mp, OF e]
  have l: "map h_id (nodes_hierarchy Edge_Device 3 ''A'' (nodes two_devices)) = [''A'', ''B'', ''C'']"
    "map h_id (nodes_hierarchy Edge_Device 3 ''A'' two_devices_by_index) = [''A'', ''C'', ''B'']"
    by (simp_all add: two_devices_by_index_def two_devices_def insert_node_row_def
        nodes_hierarchy_def base_term_def iterate_cte.simps recursive_term_def join_row_def
        level_test_def)
  from p a b l show ?thesis by blast
qed

text \<open>
  After \<open>SetAlive(A, false)\<close> on the chain A, B, C all three rows are soft-deleted and
  both forms of the query still return them.
\<close>

theorem nodes_hierarchy_returns_deleted_rows:
  "map n_id (nodes (SetAlive demo ''A'' False 7)) = [''A'', ''B'', ''C'', ''X'']
   \<and> map n_deleted_at (nodes (SetAlive demo ''A'' False 7)) = [Some 7, Some 7, Some 7, None]
   \<and> map h_id (nodes_hierarchy Central_Server 3 ''A'' (nodes (SetAlive demo ''A'' False 7)))
       = [''A'', ''B'', ''C'']
   \<and> map h_id (nodes_hierarchy Edge_Device 3 ''A'' (nodes (SetAlive demo ''A'' False 7)))
       = [''A'', ''B'', ''C'']"
  by (simp add: eval_defs nodes_hierarchy_def base_term_def
      iterate_cte.simps recursive_term_def join_row_def level_test_def)

section \<open>Depth of the hierarchy query\<close>

lemma recursive_term_level:
  assumes "r \<in> set (recursive_term q D tbl wt)"
  shows "\<exists>nh \<in> set wt. level_test q D (h_level nh) \<and> h_level r = Suc (h_level nh)"
  using assms by (auto simp: recursive_term_def join_row_def split: if_splits)

lemma central_server_levels:
  "\<forall>r \<in> set wt. h_level r \<le> D \<Longrightarrow>
   \<forall>r \<in> set (iterate_cte Central_Server D tbl wt). h_level r \<le> D"
proof (induction Central_Server D tbl wt rule: iterate_cte.induct)
  case (1 D tbl wt)
  show ?case
  proof (cases "wt = []")
    case True
    then show ?thesis by (simp add: iterate_cte.simps)
  next
    case False
    have "\<forall>r \<in> set (recursive_term Central_Server D tbl wt). h_level r \<le> D"
      using recursive_term_level [of _ Central_Server D tbl wt]
      by (fastforce simp: level_test_def)
    with 1 False show ?thesis
      by (subst iterate_cte.simps) auto
  qed
qed

text \<open>
  The central-server form of the hierarchy query, with \<open>WHERE nh.level < D\<close>, returns no
  row labelled with a level above \<open>D\<close>.
\<close>

lemma nodes_hierarchy_central_server_depth:
  "r \<in> set (nodes_hierarchy Central_Server D rt tbl) \<Longrightarrow> h_level r \<le> D"
  using central_server_levels [of "base_term rt tbl" D tbl]
  by (auto simp: nodes_hierarchy_def base_term_def)

lemma nodes_hierarchy_central_server_depth_witness:
  "\<lparr>h_id = ''B'', h_name = ''B'', h_type = ''device'', h_description = None, h_level = 1\<rparr>
     \<in> set (nodes_hierarchy Central_Server 1 ''A'' chain_nodes)
   \<and> h_level \<lparr>h_id = ''B'', h_name = ''B'', h_type = ''device'', h_description = None,
               h_level = 1\<rparr> \<le> 1"
proof -
  have "\<lparr>h_id = ''B'', h_name = ''B'', h_type = ''device'', h_description = None, h_level = 1\<rparr>
     \<in> set (nodes_hierarchy Central_Server 1 ''A'' chain_nodes)"
    by (simp add: nodes_hierarchy_def base_term_def chain_nodes_def insert_node_row_def
        iterate_cte.simps recursive_term_def join_row_def level_test_def)
  then show ?thesis
    using nodes_hierarchy_central_server_depth by blast
qed

text \<open>
  C5. The hierarchy query must not return a row labelled with a level above the depth
  argument. The central-server query keeps that bound. The edge-device query tests
  \<open>level <= D\<close> on the parent row and labels the child \<open>level + 1\<close>, so it goes one level
  too deep: on the chain network A, device B, point C with depth 1 it returns C at
  level 2, where the central-server query stops at B.
\<close>

theorem nodes_hierarchy_edge_device_too_deep:
  "map (\<lambda>r. (h_id r, h_level r)) (nodes_hierarchy Edge_Device 1 ''A'' chain_nodes)
     = [(''A'', 0), (''B'', 1), (''C'', 2)]
   \<and> map (\<lambda>r. (h_id r, h_level r)) (nodes_hierarchy Central_Server 1 ''A'' chain_nodes)
     = [(''A'', 0), (''B'', 1)]"
  by (simp add: nodes_hierarchy_def base_term_def chain_nodes_def insert_node_row_def
      iterate_cte.simps recursive_term_def join_row_def level_test_def)

section \<open>Edges follow either endpoint\<close>

text \<open>
  C6. When a cascade reaches node \<open>c\<close> and a port \<open>q\<close> of \<open>c\<close> whose state differs from
  the target, every edge with \<open>q\<close> as its source or as its destination ends in the target
  state, for a soft delete and for a restore. Nothing is asked of the other endpoint: in
  the example edge \<open>e1\<close> runs from a port of C to a port of X; it is soft-deleted with C
  while X stays alive, and restored with C while X and its port are soft-deleted.
\<close>

theorem edge_flips_with_either_endpoint:
  assumes "c \<in> reached (target_value target ts) (nodes st) {N}"
    and "q \<in> set (ports st)" "p_node_id q = Some c" "(p_deleted_at q = None) \<noteq> target"
    and "e \<in> set (edges (SetAlive st N target ts))"
    and "e_from_port_id e = Some (p_id q) \<or> e_to_port_id e = Some (p_id q)"
  shows "(e_deleted_at e = None) = target"
proof -
  have "\<not> differs (target_value target ts) (e_deleted_at e)"
    using assms
    by (intro sweep_edge_rows [where c = c and q = q and st = st and W = "{N}"
          and R = "reached (target_value target ts) (nodes st) {N}"])
       (simp_all add: SetAlive_sweep)
  then show ?thesis by simp
qed

theorem edge_flips_with_either_endpoint_witness:
  "''C'' \<in> reached (target_value False 7) (nodes demo) {''C''}
   \<and> insert_port_row ''pC'' ''C'' ''input'' \<in> set (ports demo)
   \<and> map e_deleted_at (edges (SetAlive demo ''C'' False 7)) = [Some 7, Some 7]
   \<and> map p_deleted_at (ports (SetAlive demo ''C'' False 7)) = [None, Some 7, Some 7, None]
   \<and> list_all (\<lambda>e. e_from_port_id e = Some ''pC'' \<or> e_to_port_id e = Some ''pC''
                     \<longrightarrow> (e_deleted_at e = None) = False)
        (edges (SetAlive demo ''C'' False 7))
   \<and> map p_deleted_at (ports (SetAlive (SetAlive demo ''C'' False 7) ''X'' False 8))
       = [None, Some 7, Some 7, Some 8]
   \<and> map e_deleted_at (edges (SetAlive (SetAlive (SetAlive demo ''C'' False 7) ''X'' False 8)
                                  ''C'' True 0)) = [None, None]
   \<and> map p_deleted_at (ports (SetAlive (SetAlive (SetAlive demo ''C'' False 7) ''X'' False 8)
                                  ''C'' True 0)) = [None, None, None, Some 8]
   \<and> list_all (\<lambda>e. e_from_port_id e = Some ''pC'' \<or> e_to_port_id e = Some ''pC''
                     \<longrightarrow> (e_deleted_at e = None) = True)
        (edges (SetAlive (SetAlive (SetAlive demo ''C'' False 7) ''X'' False 8) ''C'' True 0))"
proof -
  have r: "''C'' \<in> reached (target_value False 7) (nodes demo) {''C''}"
    by (rule reached.start [of _ _ "insert_node_row ''C'' ''point'' (Some ''B'')"])
       (simp_all add: demo_defs target_value_def)
  have q: "insert_port_row ''pC'' ''C'' ''input'' \<in> set (ports demo)"
    by (simp add: demo_defs)
  have "\<forall>e \<in> set (edges (SetAlive demo ''C'' False 7)).
          e_from_port_id e = Some ''pC'' \<or> e_to_port_id e = Some ''pC''
          \<longrightarrow> (e_deleted_at e = None) = False"
    using edge_flips_with_either_endpoint [OF r q]
    by (simp add: insert_port_row_def)
  then have d: "list_all (\<lambda>e. e_from_port_id e = Some ''pC'' \<or> e_to_port_id e = Some ''pC''
                     \<longrightarrow> (e_deleted_at e = None) = False)
        (edges (SetAlive demo ''C'' False 7))"
    by (simp only: list_all_iff)
  define s where "s = SetAlive (SetAlive demo ''C'' False 7) ''X'' False 8"
  have n: "nodes s = [insert_node_row ''A'' ''network'' None,
                     insert_node_row ''B'' ''device'' (Some ''A''),
                     (insert_node_row ''C'' ''point'' (Some ''B''))\<lparr>n_deleted_at := Some 7\<rparr>,
                     (insert_node_row ''X'' ''network'' None)\<lparr>n_deleted_at := Some 8\<rparr>]"
    by (simp add: s_def eval_defs)
  have p: "ports s = [insert_port_row ''pB'' ''B'' ''output'',
                     (insert_port_row ''pC'' ''C'' ''input'')\<lparr>p_deleted_at := Some 7\<rparr>,
                     (insert_port_row ''qC'' ''C'' ''output'')\<lparr>p_deleted_at := Some 7\<rparr>,
                     (insert_port_row ''pX'' ''X'' ''input'')\<lparr>p_deleted_at := Some 8\<rparr>]"
    by (simp add: s_def eval_defs)
  have r': "''C'' \<in> reached (target_value True 0) (nodes s) {''C''}"
    by (rule reached.start [of _ _ "(insert_node_row ''C'' ''point'' (Some ''B''))\<lparr>n_deleted_at := Some 7\<rparr>"])
       (simp_all add: n insert_node_row_def target_value_def)
  have q': "(insert_port_row ''pC'' ''C'' ''input'')\<lparr>p_deleted_at := Some 7\<rparr> \<in> set (ports s)"
    by (simp add: p)
  have "\<forall>e \<in> set (edges (SetAlive s ''C'' True 0)).
          e_from_port_id e = Some ''pC'' \<or> e_to_port_id e = Some ''pC''
          \<longrightarrow> (e_deleted_at e = None) = True"
    using edge_flips_with_either_endpoint [OF r' q']
    by (simp add: insert_port_row_def)
  then have u: "list_all (\<lambda>e. e_from_port_id e = Some ''pC'' \<or> e_to_port_id e = Some ''pC''
                     \<longrightarrow> (e_deleted_at e = None) = True)
        (edges (SetAlive s ''C'' True 0))"
    by (simp only: list_all_iff)
  have ev: "map e_deleted_at (edges (SetAlive demo ''C'' False 7)) = [Some 7, Some 7]"
    "map p_deleted_at (ports (SetAlive demo ''C'' False 7)) = [None, Some 7, Some 7, None]"
    "map p_deleted_at (ports s) = [None, Some 7, Some 7, Some 8]"
    "map e_deleted_at (edges (SetAlive s ''C'' True 0)) = [None, None]"
    "map p_deleted_at (ports (SetAlive s ''C'' True 0)) = [None, None, None, Some 8]"
    by (simp_all add: s_def eval_defs)
  from r q d u ev show ?thesis
    unfolding s_def by blast
qed

section \<open>Repeating a transition\<close>








section \<open>The forest of nodes\<close>

lemma parent_rel_append:
  "parent_rel (tbl @ [r]) = parent_rel tbl \<union> (case n_parent_id r of None \<Rightarrow> {} | Some p \<Rightarrow> {(n_id r, p)})"
  by (auto simp: parent_rel_def split: option.splits)

lemma path_ends_at_row:
  assumes "parents_exist tbl" "(p, z) \<in> (parent_rel tbl)\<^sup>*"
  shows "z = p \<or> z \<in> set (map n_id tbl)"
  using assms(2)
proof (induction rule: rtrancl_induct)
  case base
  then show ?case by simp
next
  case (step y z)
  then show ?case
    using assms(1) by (auto simp: parent_rel_def parents_exist_def)
qed

text \<open>
  C8. The schema rejects no insert for closing a cycle. What keeps the parent chains
  acyclic is the order of the writes: inserting a row with a fresh id under a parent
  that is already stored (or under none) keeps the chains acyclic and every
  \<open>parent_id\<close> resolved.
\<close>

theorem insert_node_keeps_forest:
  assumes "insert_node i ty par nm ds st = Inr st'"
    and "acyclic (parent_rel (nodes st))" "parents_exist (nodes st)" "par \<noteq> Some i"
  shows "acyclic (parent_rel (nodes st')) \<and> parents_exist (nodes st')"
proof -
  from assms(1) have fresh: "i \<notin> set (map n_id (nodes st))"
    by (auto simp: insert_node_def split: if_splits)
  show ?thesis
  proof (cases par)
    case None
    with assms(1) fresh have "nodes st' = nodes st @ [\<lparr>n_id = i, n_deleted_at = None, n_type = ty,
                       n_parent_id = None, n_name = nm, n_description = ds\<rparr>]"
      by (auto simp: insert_node_def)
    then show ?thesis
      using assms(2,3) by (auto simp: parent_rel_append parents_exist_def)
  next
    case (Some p)
    with assms(1,4) fresh have st': "nodes st' = nodes st @ [\<lparr>n_id = i, n_deleted_at = None, n_type = ty,
                       n_parent_id = Some p, n_name = nm, n_description = ds\<rparr>]"
      and p: "p \<in> set (map n_id (nodes st))" "p \<noteq> i"
      by (auto simp: insert_node_def split: if_splits)
    have "(p, i) \<notin> (parent_rel (nodes st))\<^sup>*"
      using path_ends_at_row [OF assms(3), of p i] fresh p(2) by blast
    then have "acyclic (insert (i, p) (parent_rel (nodes st)))"
      using assms(2) by (simp add: acyclic_insert)
    moreover have "parents_exist (nodes st')"
      using assms(3) p(1) unfolding st' parents_exist_def by auto
    ultimately show ?thesis by (simp add: st' parent_rel_append)
  qed
qed

theorem insert_node_keeps_forest_witness:
  "insert_node ''B'' ''device'' (Some ''A'') ''B'' None network_only
     = Inr (network_only\<lparr>nodes := [insert_node_row ''A'' ''network'' None,
                                     insert_node_row ''B'' ''device'' (Some ''A'')]\<rparr>)
   \<and> acyclic (parent_rel (nodes network_only))
   \<and> parents_exist (nodes network_only)
   \<and> acyclic (parent_rel [insert_node_row ''A'' ''network'' None,
                           insert_node_row ''B'' ''device'' (Some ''A'')])
   \<and> parents_exist [insert_node_row ''A'' ''network'' None,
                      insert_node_row ''B'' ''device'' (Some ''A'')]"
proof -
  have ins: "insert_node ''B'' ''device'' (Some ''A'') ''B'' None network_only
     = Inr (network_only\<lparr>nodes := [insert_node_row ''A'' ''network'' None,
                                     insert_node_row ''B'' ''device'' (Some ''A'')]\<rparr>)"
    by (simp add: insert_node_def network_only_def empty_store_def insert_node_row_def)
  have ac: "acyclic (parent_rel (nodes network_only))"
    by (simp add: parent_rel_def network_only_def insert_node_row_def acyclic_def)
  have pe: "parents_exist (nodes network_only)"
    by (simp add: parents_exist_def network_only_def insert_node_row_def)
  have ne: "Some ''A'' \<noteq> Some ''B''" by simp
  from insert_node_keeps_forest [OF ins ac pe ne] ins ac pe show ?thesis by simp
qed

text \<open>
  A row that names itself as its parent satisfies the foreign key and is stored: a cycle
  of length one.
\<close>

theorem insert_node_accepts_cycle:
  "insert_node ''A'' ''network'' (Some ''A'') ''A'' None empty_store
     = Inr (empty_store\<lparr>nodes := [insert_node_row ''A'' ''network'' (Some ''A'')]\<rparr>)
   \<and> (''A'', ''A'') \<in> parent_rel [insert_node_row ''A'' ''network'' (Some ''A'')]
   \<and> \<not> acyclic (parent_rel [insert_node_row ''A'' ''network'' (Some ''A'')])"
proof -
  have "(''A'', ''A'') \<in> parent_rel [insert_node_row ''A'' ''network'' (Some ''A'')]"
    by (simp add: parent_rel_def insert_node_row_def)
  moreover from this have "\<not> acyclic (parent_rel [insert_node_row ''A'' ''network'' (Some ''A'')])"
    by (auto simp: acyclic_def)
  moreover have "insert_node ''A'' ''network'' (Some ''A'') ''A'' None empty_store
     = Inr (empty_store\<lparr>nodes := [insert_node_row ''A'' ''network'' (Some ''A'')]\<rparr>)"
    by (simp add: insert_node_def empty_store_def insert_node_row_def)
  ultimately show ?thesis by blast
qed

section \<open>Soft delete of one port\<close>

text \<open>
  C9. Soft-deleting port \<open>p\<close> writes the row of \<open>p\<close>; if \<open>p\<close> was alive it also marks the
  alive values of \<open>p\<close> and the alive edges with \<open>p\<close> as either endpoint. Nothing else
  changes: nodes, tags, every other port, and the values and edges that do not refer
  to \<open>p\<close>.
\<close>

theorem soft_delete_port_frame:
  "soft_delete_port st p ts =
     (if \<exists>r \<in> set (ports st). p_id r = p \<and> p_deleted_at r = None
      then st\<lparr>ports := sql_update (\<lambda>r. p_id r = p) (\<lambda>r. r\<lparr>p_deleted_at := Some ts\<rparr>) (ports st),
              port_values := sql_update (\<lambda>x. v_port_id x = Some p \<and> v_deleted_at x = None)
                               (\<lambda>x. x\<lparr>v_deleted_at := Some ts\<rparr>) (port_values st),
              edges := sql_update (\<lambda>e. (e_from_port_id e = Some p \<or> e_to_port_id e = Some p)
                                        \<and> e_deleted_at e = None)
                               (\<lambda>e. e\<lparr>e_deleted_at := Some ts\<rparr>) (edges st)\<rparr>
      else st\<lparr>ports := sql_update (\<lambda>r. p_id r = p) (\<lambda>r. r\<lparr>p_deleted_at := Some ts\<rparr>) (ports st)\<rparr>)"
proof (cases "\<exists>r \<in> set (ports st). p_id r = p \<and> p_deleted_at r = None")
  case True
  then have P: "p_id ` {r \<in> set (ports st). p_id r = p \<and> differs (Some ts) (p_deleted_at r)} = {p}"
    by auto
  have "soft_delete_port st p ts
      = (sweep_ports (Some ts) {p} st)
          \<lparr>ports := sql_update (\<lambda>r. p_id r = p) (\<lambda>r. r\<lparr>p_deleted_at := Some ts\<rparr>) (ports st)\<rparr>"
    by (simp only: soft_delete_port_def update_ports_eq P)
  then show ?thesis
    by (simp add: True sweep_ports_def)
next
  case False
  then have P: "p_id ` {r \<in> set (ports st). p_id r = p \<and> differs (Some ts) (p_deleted_at r)} = {}"
    by auto
  have "soft_delete_port st p ts
      = (sweep_ports (Some ts) {} st)
          \<lparr>ports := sql_update (\<lambda>r. p_id r = p) (\<lambda>r. r\<lparr>p_deleted_at := Some ts\<rparr>) (ports st)\<rparr>"
    by (simp only: soft_delete_port_def update_ports_eq P)
  then show ?thesis
    by (simp add: False)
qed

theorem soft_delete_port_frame_witness:
  "nodes (soft_delete_port demo ''pC'' 7) = nodes demo
   \<and> tags (soft_delete_port demo ''pC'' 7) = tags demo
   \<and> map p_deleted_at (ports (soft_delete_port demo ''pC'' 7)) = [None, Some 7, None, None]
   \<and> map v_deleted_at (port_values (soft_delete_port demo ''pC'' 7)) = [Some 7, None]
   \<and> map e_deleted_at (edges (soft_delete_port demo ''pC'' 7)) = [Some 7, None]"
  unfolding soft_delete_port_frame [of demo "''pC''" 7]
  by (simp add: demo_defs sql_update_def)

section \<open>Restoring below a soft-deleted parent\<close>

text \<open>
  C10. In a forest, restoring node \<open>N\<close> whose parent \<open>P\<close> is soft-deleted leaves \<open>N\<close>
  alive and \<open>P\<close> soft-deleted: the cascade only descends. The example reaches such a
  store with two calls of \<open>SetAlive\<close> from a store where every row is alive.
\<close>

theorem restore_under_dead_parent:
  assumes "acyclic (parent_rel (nodes st))"
    and "n \<in> set (nodes st)" "n_id n = N" "n_parent_id n = Some P"
    and "\<forall>r \<in> set (nodes st). n_id r = P \<longrightarrow> n_deleted_at r \<noteq> None"
  shows "(\<forall>r \<in> set (nodes (SetAlive st N True ts)). n_id r = N \<longrightarrow> n_deleted_at r = None)
       \<and> (\<forall>r \<in> set (nodes (SetAlive st N True ts)). n_id r = P \<longrightarrow> n_deleted_at r \<noteq> None)"
proof -
  define R where "R = reached None (nodes st) {N}"
  have nodes': "nodes (SetAlive st N True ts)
      = sql_update (\<lambda>r. n_id r \<in> {N} \<union> R) (\<lambda>r. r\<lparr>n_deleted_at := None\<rparr>) (nodes st)"
    by (simp add: SetAlive_sweep target_value_def nodes_sweep R_def)
  have edge: "(N, P) \<in> parent_rel (nodes st)"
    using assms(2-4) by (auto simp: parent_rel_def)
  have "P \<noteq> N"
    using assms(1) edge by (auto simp: acyclic_def)
  moreover have "P \<notin> R"
  proof
    assume "P \<in> R"
    then have "(P, N) \<in> (parent_rel (nodes st))\<^sup>*"
      using reached_descends [of P None "nodes st" "{N}"] by (simp add: R_def)
    with edge have "(N, N) \<in> (parent_rel (nodes st))\<^sup>+"
      by (rule rtrancl_into_trancl2)
    with assms(1) show False by (simp add: acyclic_def)
  qed
  ultimately have out: "P \<notin> {N} \<union> R" by simp
  show ?thesis
  proof (intro conjI ballI impI)
    fix r assume r: "r \<in> set (nodes (SetAlive st N True ts))" "n_id r = N"
    from r(1) consider "r \<in> set (nodes st)" "n_id r \<notin> {N} \<union> R"
      | r0 where "r0 \<in> set (nodes st)" "r = r0\<lparr>n_deleted_at := None\<rparr>"
      unfolding nodes' by (blast dest: in_sql_updateD)
    then show "n_deleted_at r = None"
      using r(2) by cases simp_all
  next
    fix r assume r: "r \<in> set (nodes (SetAlive st N True ts))" "n_id r = P"
    from r(1) consider "r \<in> set (nodes st)" "n_id r \<notin> {N} \<union> R"
      | r0 where "r0 \<in> set (nodes st)" "n_id r0 \<in> {N} \<union> R" "r = r0\<lparr>n_deleted_at := None\<rparr>"
      unfolding nodes' by (blast dest: in_sql_updateD)
    then show "n_deleted_at r \<noteq> None"
    proof cases
      case 1
      with assms(5) r(2) show ?thesis by blast
    next
      case 2
      with r(2) out show ?thesis by simp
    qed
  qed
qed

theorem restore_under_dead_parent_witness:
  "map n_deleted_at (nodes (SetAlive demo ''B'' False 7)) = [None, Some 7, Some 7, None]
   \<and> map n_deleted_at (nodes (SetAlive (SetAlive demo ''B'' False 7) ''C'' True 0))
       = [None, Some 7, None, None]
   \<and> list_all (\<lambda>r. n_id r = ''B'' \<longrightarrow> n_deleted_at r \<noteq> None)
        (nodes (SetAlive (SetAlive demo ''B'' False 7) ''C'' True 0))"
proof -
  define st where "st = SetAlive demo ''B'' False 7"
  have n: "nodes st = [insert_node_row ''A'' ''network'' None,
                      (insert_node_row ''B'' ''device'' (Some ''A''))\<lparr>n_deleted_at := Some 7\<rparr>,
                      (insert_node_row ''C'' ''point'' (Some ''B''))\<lparr>n_deleted_at := Some 7\<rparr>,
                      insert_node_row ''X'' ''network'' None]"
    by (simp add: st_def eval_defs)
  have ac: "acyclic (parent_rel (nodes st))"
  proof (rule acyclicI_order [where f = "\<lambda>i. if i = ''A'' then 0 else if i = ''B'' then 1 else (2::nat)"])
    fix a b assume "(a, b) \<in> parent_rel (nodes st)"
    then show "(if b = ''A'' then 0 else if b = ''B'' then 1 else (2::nat))
             < (if a = ''A'' then 0 else if a = ''B'' then 1 else 2)"
      by (auto simp: n parent_rel_def insert_node_row_def)
  qed
  have row: "(insert_node_row ''C'' ''point'' (Some ''B''))\<lparr>n_deleted_at := Some 7\<rparr> \<in> set (nodes st)"
    by (simp add: n)
  have dead: "\<forall>r \<in> set (nodes st). n_id r = ''B'' \<longrightarrow> n_deleted_at r \<noteq> None"
    by (simp add: n insert_node_row_def)
  have "list_all (\<lambda>r. n_id r = ''B'' \<longrightarrow> n_deleted_at r \<noteq> None) (nodes (SetAlive st ''C'' True 0))"
    unfolding list_all_iff
    using restore_under_dead_parent [OF ac row _ _ dead, of "''C''" 0]
    by (simp add: insert_node_row_def)
  moreover have "map n_deleted_at (nodes (SetAlive demo ''B'' False 7)) = [None, Some 7, Some 7, None]"
    by (simp add: eval_defs)
  moreover have "map n_deleted_at (nodes (SetAlive (SetAlive demo ''B'' False 7) ''C'' True 0))
       = [None, Some 7, None, None]"
    by (simp add: eval_defs)
  ultimately show ?thesis by (simp add: st_def)
qed

end
